theory Spec2Isabelle
  imports Main "HOL-Library.Word"
begin

unbundle bit_operations_syntax

section \<open>NanoZip (nz1.c): a shallow embedding\<close>

text \<open>
  The embedding follows \<^verbatim>\<open>src/lz/nz1/nz1.c\<close>.  Conventions:
  \<^item> \<^verbatim>\<open>uint8_t\<close> is \<open>8 word\<close>, \<^verbatim>\<open>uint16_t\<close> is \<open>16 word\<close>, \<^verbatim>\<open>uint32_t\<close> is \<open>32 word\<close>;
  \<^item> \<^verbatim>\<open>size_t\<close> is 64 bits wide.  Buffer sizes and positions are natural numbers; every
    buffer is taken to be smaller than \<open>2 ^ 63\<close> bytes, so sums of sizes do not wrap.  The two
    \<^verbatim>\<open>size_t\<close> subtractions of the source whose wrap-around matters
    (\<^verbatim>\<open>pos - candidate\<close> in \<^verbatim>\<open>find_match\<close>, and the index \<^verbatim>\<open>out_pos - dist\<close> of the copy
    loop of the decoder) are written out modulo \<open>2 ^ 64\<close>;
  \<^item> every conversion to \<^verbatim>\<open>uint32_t\<close> is written out (\<open>word_of_nat\<close>);
  \<^item> \<^verbatim>\<open>memcpy\<close> of an integer to or from a byte buffer is little-endian (the byte order of
    the hosts the file selects vector code for, and of the format);
  \<^item> the zero-initialised tables \<^verbatim>\<open>head\<close> and \<^verbatim>\<open>chain\<close> are total functions from index
    to entry: every index the source computes is inside the table
    (a 14-bit hash, and a remainder modulo \<^verbatim>\<open>window_size\<close>); \<^verbatim>\<open>calloc\<close> is taken to succeed.
\<close>

type_synonym byte = "8 word"
type_synonym u16 = "16 word"
type_synonym u32 = "32 word"

subsection \<open>Constants\<close>

definition NZ_MAGIC :: u32 where "NZ_MAGIC = 0x5A4E5A50"
definition MAX_WINDOW :: nat where "MAX_WINDOW = 65535"
definition MIN_WINDOW :: nat where "MIN_WINDOW = 1024"
definition DEFAULT_WINDOW :: nat where "DEFAULT_WINDOW = 65535"
definition MAX_MATCH :: nat where "MAX_MATCH = 258"
definition MIN_MATCH :: nat where "MIN_MATCH = 3"
definition HASH_BITS :: nat where "HASH_BITS = 14"
definition MATCH_SEARCH_LIMIT :: nat where "MATCH_SEARCH_LIMIT = 32"
definition CRC32_POLY :: u32 where "CRC32_POLY = 0xEDB88320"

subsection \<open>Little-endian integers in byte buffers\<close>

definition le32 :: "u32 \<Rightarrow> byte list" where
  "le32 x = [ucast x, ucast (drop_bit 8 x), ucast (drop_bit 16 x), ucast (drop_bit 24 x)]"

definition le16 :: "u16 \<Rightarrow> byte list" where
  "le16 x = [ucast x, ucast (drop_bit 8 x)]"

definition rd32 :: "byte list \<Rightarrow> nat \<Rightarrow> u32" where
  "rd32 buf off =
     ucast (buf ! off) OR push_bit 8 (ucast (buf ! (off + 1)))
       OR push_bit 16 (ucast (buf ! (off + 2))) OR push_bit 24 (ucast (buf ! (off + 3)))"

definition rd16 :: "byte list \<Rightarrow> nat \<Rightarrow> u16" where
  "rd16 buf off = ucast (buf ! off) OR push_bit 8 (ucast (buf ! (off + 1)))"

subsection \<open>Checksum\<close>

text \<open>One turn of the inner loop: \<^verbatim>\<open>crc = (crc >> 1) ^ (CRC32_POLY & -(crc & 1))\<close>.\<close>

definition crc_bit :: "u32 \<Rightarrow> u32" where
  "crc_bit crc = drop_bit 1 crc XOR (CRC32_POLY AND - (crc AND 1))"

text \<open>The inner loop \<^verbatim>\<open>for(j=0; j<8; j++)\<close>, counting the turns left.\<close>

primrec crc_bits :: "nat \<Rightarrow> u32 \<Rightarrow> u32" where
  "crc_bits 0 crc = crc"
| "crc_bits (Suc n) crc = crc_bits n (crc_bit crc)"

definition crc_byte :: "u32 \<Rightarrow> byte \<Rightarrow> u32" where
  "crc_byte crc b = crc_bits 8 (crc XOR ucast b)"

text \<open>The outer loop reads \<^verbatim>\<open>data[0 .. len-1]\<close> in order.\<close>

definition nz_crc32 :: "byte list \<Rightarrow> nat \<Rightarrow> u32" where
  "nz_crc32 data len = NOT (foldl crc_byte 0xFFFFFFFF (map (\<lambda>i. data ! i) [0..<len]))"

subsection \<open>Compression state\<close>

record NZ_State =
  head :: "nat \<Rightarrow> u32"
  chain :: "nat \<Rightarrow> u32"
  window_size :: nat

definition nz_init :: "nat \<Rightarrow> NZ_State" where
  "nz_init w =
     (let w1 = (if w < MIN_WINDOW then DEFAULT_WINDOW else w);
          w2 = (if w1 > MAX_WINDOW then MAX_WINDOW else w1)
      in \<lparr>head = (\<lambda>_. 0), chain = (\<lambda>_. 0), window_size = w2\<rparr>)"

subsection \<open>Vector comparison\<close>

text \<open>
  The three vector back ends of the platform detection block.  The x86-64 one is listed
  twice: the first difference inside a block is found by \<^verbatim>\<open>__builtin_ctz\<close> under GCC and
  Clang, and by the bit-scanning loop under any other compiler; the NEON and the portable
  macros are GNU statement expressions, so they only exist with the builtin.
\<close>

datatype backend = AVX2 | AVX2_SCAN | NEON | PORTABLE

fun SIMD_WIDTH :: "backend \<Rightarrow> nat" where
  "SIMD_WIDTH AVX2 = 32"
| "SIMD_WIDTH AVX2_SCAN = 32"
| "SIMD_WIDTH NEON = 16"
| "SIMD_WIDTH PORTABLE = 8"

text \<open>\<^verbatim>\<open>VEC_LOAD(a)\<close>: the \<^verbatim>\<open>SIMD_WIDTH\<close> bytes from offset \<open>a\<close> of the data.\<close>

definition VEC_LOAD :: "backend \<Rightarrow> byte list \<Rightarrow> nat \<Rightarrow> byte list" where
  "VEC_LOAD b data a = map (\<lambda>i. data ! (a + i)) [0..<SIMD_WIDTH b]"

text \<open>\<^verbatim>\<open>VEC_CMP(a,b)\<close>: \<open>0xFF\<close> in every lane where the bytes agree, \<open>0\<close> elsewhere.\<close>

definition VEC_CMP :: "byte list \<Rightarrow> byte list \<Rightarrow> byte list" where
  "VEC_CMP a c = map (\<lambda>(x, y). if x = y then 0xFF else 0) (zip a c)"

text \<open>
  What makes bit \<open>i\<close> of the mask: the top bit of lane \<open>i\<close> for
  \<^verbatim>\<open>_mm256_movemask_epi8\<close> and for the portable macro (\<^verbatim>\<open>bytes[i] & 0x80\<close>), the
  whole lane being \<open>0xFF\<close> for the NEON macro.
\<close>

fun lane_set :: "backend \<Rightarrow> byte \<Rightarrow> bool" where
  "lane_set NEON x = (x = 0xFF)"
| "lane_set b x = (x AND 0x80 \<noteq> 0)"

definition VEC_MOVEMASK :: "backend \<Rightarrow> byte list \<Rightarrow> u32" where
  "VEC_MOVEMASK b v =
     foldl (\<lambda>m i. m OR (if lane_set b (v ! i) then push_bit i 1 else 0)) 0 [0..<SIMD_WIDTH b]"

text \<open>
  \<^verbatim>\<open>(1 << SIMD_WIDTH) - 1\<close>, compared with the 32-bit mask.  For the 32-byte lanes the
  shift leaves the 32 bits of the type: the value is taken as it is after conversion to
  \<^verbatim>\<open>uint32_t\<close>, all ones.
\<close>

definition ALL_ONES :: "backend \<Rightarrow> u32" where
  "ALL_ONES b = push_bit (SIMD_WIDTH b) 1 - 1"

text \<open>\<^verbatim>\<open>__builtin_ctz\<close>: the number of trailing zero bits (the builtin leaves 0 undefined).\<close>

definition ctz :: "u32 \<Rightarrow> nat" where
  "ctz x = length (takeWhile (\<lambda>j. \<not> bit x j) [0..<32])"

text \<open>The index added to \<^verbatim>\<open>len\<close> when a block differs.\<close>

fun first_diff :: "backend \<Rightarrow> u32 \<Rightarrow> nat" where
  "first_diff AVX2_SCAN msk =
     (case find (\<lambda>j. drop_bit j msk AND 1 = 0) [0..<SIMD_WIDTH AVX2_SCAN] of
        Some j \<Rightarrow> j | None \<Rightarrow> 0)"
| "first_diff b msk = ctz (NOT msk)"

text \<open>The vector loop \<^verbatim>\<open>while(len + SIMD_WIDTH <= max_len)\<close>.\<close>

function vec_loop :: "backend \<Rightarrow> byte list \<Rightarrow> nat \<Rightarrow> u32 \<Rightarrow> nat \<Rightarrow> nat \<Rightarrow> nat" where
  "vec_loop b data pos cand max_len len =
     (if len + SIMD_WIDTH b \<le> max_len then
        (let a = VEC_LOAD b data (pos + len);
             c = VEC_LOAD b data (unat cand + len);
             msk = VEC_MOVEMASK b (VEC_CMP a c)
         in if msk \<noteq> ALL_ONES b then len + first_diff b msk
            else vec_loop b data pos cand max_len (len + SIMD_WIDTH b))
      else len)"
  by pat_completeness auto
termination
  by (relation "measure (\<lambda>(b, data, pos, cand, max_len, len). max_len - len)")
     (auto, case_tac b, auto)

text \<open>
  The scalar tail \<^verbatim>\<open>while(len < max_len && data[pos+len] == data[candidate+len])\<close>.  The index
  \<^verbatim>\<open>candidate+len\<close> is a sum of two \<^verbatim>\<open>uint32_t\<close>.
\<close>

function scalar_loop :: "byte list \<Rightarrow> nat \<Rightarrow> u32 \<Rightarrow> nat \<Rightarrow> nat \<Rightarrow> nat" where
  "scalar_loop data pos cand max_len len =
     (if len < max_len \<and> data ! (pos + len) = data ! unat (cand + word_of_nat len)
      then scalar_loop data pos cand max_len (len + 1) else len)"
  by pat_completeness auto
termination
  by (relation "measure (\<lambda>(data, pos, cand, max_len, len). max_len - len)") auto

definition match_len :: "backend \<Rightarrow> byte list \<Rightarrow> nat \<Rightarrow> u32 \<Rightarrow> nat \<Rightarrow> nat" where
  "match_len b data pos cand max_len =
     scalar_loop data pos cand max_len (vec_loop b data pos cand max_len 0)"

subsection \<open>Match finder\<close>

text \<open>
  The hash of the three bytes at \<open>pos\<close>:
  \<^verbatim>\<open>hash = (data[pos]<<16) | (data[pos+1]<<8) | data[pos+2]\<close>, then
  \<^verbatim>\<open>hash = (hash * 0x9E3779B1) >> (32 - HASH_BITS)\<close>, in 32-bit unsigned arithmetic.
\<close>

definition hash3 :: "byte list \<Rightarrow> nat \<Rightarrow> u32" where
  "hash3 data pos =
     (let hash = push_bit 16 (ucast (data ! pos)) OR push_bit 8 (ucast (data ! (pos + 1)))
                   OR ucast (data ! (pos + 2))
      in drop_bit (32 - HASH_BITS) (hash * 0x9E3779B1))"

text \<open>
  The chain walk \<^verbatim>\<open>for(int i=0; i<MATCH_SEARCH_LIMIT && candidate; i++)\<close>.  The first
  numeric argument counts the turns left (\<^verbatim>\<open>MATCH_SEARCH_LIMIT - i\<close>; \<^verbatim>\<open>continue\<close> uses one
  up as well).  \<^verbatim>\<open>size_t dist = pos - candidate\<close> wraps modulo \<open>2 ^ 64\<close> when the candidate
  lies beyond \<open>pos\<close>.  The result is \<^verbatim>\<open>(best_len, best_match_candidate)\<close>.
\<close>

fun walk :: "backend \<Rightarrow> byte list \<Rightarrow> nat \<Rightarrow> nat \<Rightarrow> NZ_State \<Rightarrow> nat \<Rightarrow> u32 \<Rightarrow> nat \<Rightarrow> u32
               \<Rightarrow> nat \<times> u32" where
  "walk b data pos endp st 0 candidate best_len best_cand = (best_len, best_cand)"
| "walk b data pos endp st (Suc n) candidate best_len best_cand =
     (if candidate = 0 then (best_len, best_cand)
      else if unat candidate = pos then
        walk b data pos endp st n (chain st (unat candidate mod window_size st)) best_len best_cand
      else
        (let dist = (pos + 2 ^ 64 - unat candidate) mod 2 ^ 64 in
         if dist > window_size st then (best_len, best_cand)
         else
           (let max_len = (if endp - pos < MAX_MATCH then endp - pos else MAX_MATCH);
                len = match_len b data pos candidate max_len
            in if len > best_len \<and> len \<ge> MIN_MATCH then
                 (if len \<ge> MAX_MATCH then (len, candidate)
                  else walk b data pos endp st n
                         (chain st (unat candidate mod window_size st)) len candidate)
               else walk b data pos endp st n
                      (chain st (unat candidate mod window_size st)) best_len best_cand)))"

text \<open>
  \<^verbatim>\<open>find_match\<close> returns the length, the value left in \<^verbatim>\<open>*out_match_pos\<close>, and the state
  after the call.
\<close>

definition find_match :: "backend \<Rightarrow> byte list \<Rightarrow> nat \<Rightarrow> nat \<Rightarrow> NZ_State \<Rightarrow> nat \<times> u32 \<times> NZ_State" where
  "find_match b data pos endp st =
     (if pos + MIN_MATCH > endp then (0, 0, st)
      else
        (let hash = unat (hash3 data pos);
             prev_head_value = head st hash;
             st1 = st\<lparr>head := (head st)(hash := word_of_nat pos)\<rparr>;
             (best_len, best_cand) =
                walk b data pos endp st1 MATCH_SEARCH_LIMIT prev_head_value 0 0;
             st2 = st1\<lparr>chain := (chain st1)(pos mod window_size st1 := prev_head_value)\<rparr>
         in (best_len, best_cand, st2)))"

subsection \<open>Encoder\<close>

text \<open>
  The state of the main loop: the input position \<^verbatim>\<open>pos\<close>, the bytes written so far
  (\<^verbatim>\<open>output[0 .. out_ptr - output - 1]\<close>; the source only ever appends), and the tables.
\<close>

record cstate =
  cpos :: nat
  cout :: "byte list"
  cst :: NZ_State

text \<open>
  One turn of the main loop, entered with \<^verbatim>\<open>pos < in_size\<close>; the flag is \<open>False\<close> when the
  turn ends in \<^verbatim>\<open>break\<close>.  The capacity tests compare \<^verbatim>\<open>out_ptr - output\<close> with
  \<^verbatim>\<open>(ptrdiff_t)out_size - n\<close> as signed numbers.
\<close>

definition comp_body :: "backend \<Rightarrow> byte list \<Rightarrow> nat \<Rightarrow> cstate \<Rightarrow> bool \<times> cstate" where
  "comp_body b input out_size s =
     (case find_match b input (cpos s) (length input) (cst s) of
        (mlen, actual_match_pos, st') \<Rightarrow>
          if mlen \<ge> MIN_MATCH then
            (let dist = (word_of_nat (cpos s) - actual_match_pos :: u32) in
             if int (length (cout s)) > int out_size - 4 then (False, s\<lparr>cst := st'\<rparr>)
             else (True,
                   \<lparr>cpos = cpos s + mlen,
                    cout = cout s @ [0xC0, ucast dist, ucast (drop_bit 8 dist),
                                     word_of_nat (mlen - MIN_MATCH)],
                    cst = st'\<rparr>))
          else if input ! cpos s = 0xBF then
            (if int (length (cout s)) \<ge> int out_size - 2 then (False, s\<lparr>cst := st'\<rparr>)
             else (True, \<lparr>cpos = cpos s + 1, cout = cout s @ [0xBF, 0xBF], cst = st'\<rparr>))
          else if input ! cpos s \<ge> 0xC0 then
            (if int (length (cout s)) \<ge> int out_size - 2 then (False, s\<lparr>cst := st'\<rparr>)
             else (True,
                   \<lparr>cpos = cpos s + 1, cout = cout s @ [0xBF, input ! cpos s], cst = st'\<rparr>))
          else
            (if int (length (cout s)) \<ge> int out_size - 1 then (False, s\<lparr>cst := st'\<rparr>)
             else (True, \<lparr>cpos = cpos s + 1, cout = cout s @ [input ! cpos s], cst = st'\<rparr>)))"

text \<open>The main loop \<^verbatim>\<open>for(size_t pos=0; pos<in_size; )\<close>.\<close>

function comp_loop :: "backend \<Rightarrow> byte list \<Rightarrow> nat \<Rightarrow> cstate \<Rightarrow> cstate" where
  "comp_loop b input out_size s =
     (if cpos s < length input then
        (case comp_body b input out_size s of
           (True, s') \<Rightarrow> comp_loop b input out_size s'
         | (False, s') \<Rightarrow> s')
      else s)"
  by pat_completeness auto
termination
  by (relation "measure (\<lambda>(b, input, out_size, s). length input - cpos s)")
     (auto simp: comp_body_def MIN_MATCH_def Let_def split: prod.splits if_splits)

text \<open>
  The \<^verbatim>\<open>int window_size\<close> argument (32 bits, read as two's complement), converted to the
  \<^verbatim>\<open>size_t\<close> parameter of \<^verbatim>\<open>nz_init\<close>.
\<close>

definition size_t_of_int :: "u32 \<Rightarrow> nat" where
  "size_t_of_int i = nat (sint i mod 2 ^ 64)"

definition header :: "byte list \<Rightarrow> NZ_State \<Rightarrow> byte list" where
  "header input st =
     le32 NZ_MAGIC @ le32 (word_of_nat (length input))
       @ le32 (nz_crc32 input (length input)) @ le16 (word_of_nat (window_size st))"

text \<open>The state in which the main loop ends, once the capacity test at the top has passed.\<close>

definition compress_final :: "backend \<Rightarrow> byte list \<Rightarrow> nat \<Rightarrow> u32 \<Rightarrow> cstate" where
  "compress_final b input out_size w =
     (let st = nz_init (size_t_of_int w)
      in comp_loop b input out_size \<lparr>cpos = 0, cout = header input st, cst = st\<rparr>)"

text \<open>
  \<^verbatim>\<open>nanozip_compress\<close>: the return value, and the bytes it has written to the front of the
  output buffer.
\<close>

definition nanozip_compress :: "backend \<Rightarrow> byte list \<Rightarrow> nat \<Rightarrow> u32 \<Rightarrow> nat \<times> byte list" where
  "nanozip_compress b input out_size w =
     (if out_size < length input + 14 then (0, [])
      else (let s = compress_final b input out_size w in (length (cout s), cout s)))"

subsection \<open>Decoder\<close>

text \<open>
  The decoder state: \<^verbatim>\<open>in_ptr\<close> as an offset into the input, \<^verbatim>\<open>in_remain\<close>, the output
  buffer, \<^verbatim>\<open>out_pos\<close>; and, as a ghost field that no other field depends on, the trace of
  the accesses to the output buffer in program order.
\<close>

datatype access = Wr nat | Rd nat

record dstate =
  in_ptr :: nat
  in_remain :: nat
  outb :: "byte list"
  out_pos :: nat
  trace :: "access list"

text \<open>\<^verbatim>\<open>output[out_pos++] = v\<close>\<close>

definition put :: "byte \<Rightarrow> dstate \<Rightarrow> dstate" where
  "put v s = s\<lparr>outb := (outb s)[out_pos s := v], out_pos := out_pos s + 1,
               trace := trace s @ [Wr (out_pos s)]\<rparr>"

text \<open>
  The index \<^verbatim>\<open>out_pos - dist\<close> of a backward read is computed in \<^verbatim>\<open>size_t\<close> from a \<^verbatim>\<open>size_t\<close>
  and a \<^verbatim>\<open>uint32_t\<close>: it is the difference modulo \<open>2^64\<close>, so a distance beyond \<open>out_pos\<close>
  would give an index far above any buffer.
\<close>

definition size_t_sub :: "nat \<Rightarrow> nat \<Rightarrow> nat" where
  "size_t_sub a b = (a + 2 ^ 64 - b mod 2 ^ 64) mod 2 ^ 64"

text \<open>
  The copy loop \<^verbatim>\<open>for(i=0; i<len; i++) { output[out_pos] = output[out_pos - dist]; out_pos++; }\<close>,
  counting the turns left.  Each turn records the read at the index the source computes and
  then the write.
\<close>

primrec copy_match :: "nat \<Rightarrow> nat \<Rightarrow> dstate \<Rightarrow> dstate" where
  "copy_match 0 dist s = s"
| "copy_match (Suc n) dist s =
     copy_match n dist
       (put (outb s ! size_t_sub (out_pos s) dist)
            (s\<lparr>trace := trace s @ [Rd (size_t_sub (out_pos s) dist)]\<rparr>))"

text \<open>
  The fields of a match token at offset \<open>ip\<close>: \<^verbatim>\<open>len = in_ptr[3] + MIN_MATCH\<close> and
  \<^verbatim>\<open>dist = in_ptr[1] | (in_ptr[2] << 8)\<close>.
\<close>

definition match_length :: "byte list \<Rightarrow> nat \<Rightarrow> nat" where
  "match_length inp ip = unat (inp ! (ip + 3)) + MIN_MATCH"

definition match_distance :: "byte list \<Rightarrow> nat \<Rightarrow> nat" where
  "match_distance inp ip =
     unat ((ucast (inp ! (ip + 1)) :: u32) OR push_bit 8 (ucast (inp ! (ip + 2))))"

text \<open>
  One turn of the token loop; the flag is \<open>False\<close> when the turn ends in \<^verbatim>\<open>break\<close>.
\<close>

definition dec_body :: "byte list \<Rightarrow> nat \<Rightarrow> dstate \<Rightarrow> bool \<times> dstate" where
  "dec_body inp data_size s =
     (if inp ! in_ptr s = 0xBF then
        (let s1 = s\<lparr>in_ptr := in_ptr s + 1, in_remain := in_remain s - 1\<rparr> in
         if in_remain s1 = 0 then (False, s1)
         else (True, (put (inp ! in_ptr s1) s1)
                       \<lparr>in_ptr := in_ptr s1 + 1, in_remain := in_remain s1 - 1\<rparr>))
      else if inp ! in_ptr s = 0xC0 then
        (if in_remain s < 4 then (False, s)
         else
           (let len = match_length inp (in_ptr s);
                dist = match_distance inp (in_ptr s)
            in if len > MAX_MATCH then (False, s)
               else if dist = 0 \<or> dist > out_pos s \<or> out_pos s + len > data_size
               then (False, s)
               else (True, (copy_match len dist s)
                             \<lparr>in_ptr := in_ptr s + 4, in_remain := in_remain s - 4\<rparr>)))
      else (True, (put (inp ! in_ptr s) s)
                    \<lparr>in_ptr := in_ptr s + 1, in_remain := in_remain s - 1\<rparr>))"

text \<open>The token loop \<^verbatim>\<open>while(in_remain > 0 && out_pos < data_size)\<close>.\<close>

function dec_loop :: "byte list \<Rightarrow> nat \<Rightarrow> dstate \<Rightarrow> dstate" where
  "dec_loop inp data_size s =
     (if in_remain s > 0 \<and> out_pos s < data_size then
        (case dec_body inp data_size s of
           (True, s') \<Rightarrow> dec_loop inp data_size s'
         | (False, s') \<Rightarrow> s')
      else s)"
  by pat_completeness auto
termination
  by (relation "measure (\<lambda>(inp, data_size, s). in_remain s)")
     (auto simp: dec_body_def Let_def split: if_splits)

text \<open>The header fields as the decoder reads them, and the state before the first turn.\<close>

definition hdr_magic :: "byte list \<Rightarrow> u32" where
  "hdr_magic inp = rd32 inp 0"

definition hdr_size :: "byte list \<Rightarrow> nat" where
  "hdr_size inp = unat (rd32 inp 4)"

definition hdr_crc :: "byte list \<Rightarrow> u32" where
  "hdr_crc inp = rd32 inp 8"

definition hdr_window :: "byte list \<Rightarrow> nat" where
  "hdr_window inp = unat (rd16 inp 12)"

definition dec_start :: "byte list \<Rightarrow> byte list \<Rightarrow> dstate" where
  "dec_start inp output =
     \<lparr>in_ptr = 14, in_remain = length inp - 14, outb = output, out_pos = 0, trace = []\<rparr>"

text \<open>
  \<^verbatim>\<open>nanozip_decompress\<close>, given the compressed bytes and the output buffer as the caller
  passes it (its length is \<^verbatim>\<open>out_size\<close>): the return value, the output buffer afterwards,
  and the trace of accesses to it.  The final test evaluates the checksum only when the
  size test has passed.
\<close>

definition nanozip_decompress :: "byte list \<Rightarrow> byte list \<Rightarrow> nat \<times> byte list \<times> access list" where
  "nanozip_decompress inp output =
     (if length inp < 14 then (0, output, [])
      else if hdr_magic inp \<noteq> NZ_MAGIC then (0, output, [])
      else
        (let data_size = hdr_size inp;
             crc = hdr_crc inp;
             wsize = hdr_window inp
         in if wsize = 0 \<or> wsize > MAX_WINDOW \<or> data_size > length output
            then (0, output, [])
            else
              (let s = dec_loop inp data_size (dec_start inp output)
               in if out_pos s \<noteq> data_size then (0, outb s, trace s)
                  else if nz_crc32 (outb s) data_size \<noteq> crc
                  then (0, outb s, trace s @ map Rd [0..<data_size])
                  else (data_size, outb s, trace s @ map Rd [0..<data_size]))))"

section \<open>Notions used to state the properties\<close>

text \<open>
  The state at the top of the token loop after \<open>k\<close> complete turns, \<open>None\<close> when the loop
  has ended before.
\<close>

fun dec_run :: "byte list \<Rightarrow> nat \<Rightarrow> nat \<Rightarrow> dstate \<Rightarrow> dstate option" where
  "dec_run inp data_size 0 s = Some s"
| "dec_run inp data_size (Suc k) s =
     (if in_remain s > 0 \<and> out_pos s < data_size then
        (case dec_body inp data_size s of
           (True, s') \<Rightarrow> dec_run inp data_size k s'
         | (False, s') \<Rightarrow> None)
      else None)"

text \<open>
  The loop is about to read a token that the input ends inside of: its condition holds
  (input is left, and fewer bytes than the declared size have been produced), and the next
  byte is an escape marker that is the last byte, or a match marker with fewer than four
  bytes left.  A cut token that lies behind the point at which the declared size is reached
  is never read; it is not covered by this notion.
\<close>

definition truncated_token :: "byte list \<Rightarrow> nat \<Rightarrow> dstate \<Rightarrow> bool" where
  "truncated_token inp data_size s \<longleftrightarrow>
     in_remain s > 0 \<and> out_pos s < data_size \<and>
     (inp ! in_ptr s = 0xBF \<and> in_remain s = 1 \<or> inp ! in_ptr s = 0xC0 \<and> in_remain s < 4)"

text \<open>The loop is about to read a complete match token.\<close>

definition at_match :: "byte list \<Rightarrow> nat \<Rightarrow> dstate \<Rightarrow> bool" where
  "at_match inp data_size s \<longleftrightarrow>
     in_remain s \<ge> 4 \<and> out_pos s < data_size \<and> inp ! in_ptr s = 0xC0"

text \<open>
  A trace of output accesses is in order: the writes go to the indices \<open>w\<close>, \<open>w + 1\<close>, ...
  one after the other, each below \<open>lim\<close>, and every read is strictly below the index of
  the next write, that is, of a byte already written.
\<close>

fun trace_ok :: "nat \<Rightarrow> nat \<Rightarrow> access list \<Rightarrow> bool" where
  "trace_ok lim w [] = True"
| "trace_ok lim w (Wr i # t) = (i = w \<and> i < lim \<and> trace_ok lim (Suc w) t)"
| "trace_ok lim w (Rd i # t) = (i < w \<and> trace_ok lim w t)"

text \<open>
  The trace of a decoder state is in order and has left the next write at \<open>out_pos\<close>:
  whatever well-ordered trace follows from there, the whole is in order.
\<close>

definition trace_inv :: "nat \<Rightarrow> dstate \<Rightarrow> bool" where
  "trace_inv lim s \<longleftrightarrow>
     out_pos s \<le> lim \<and>
     (\<forall>t. trace_ok lim (out_pos s) t \<longrightarrow> trace_ok lim 0 (trace s @ t))"

fun idx :: "access \<Rightarrow> nat" where
  "idx (Wr i) = i"
| "idx (Rd i) = i"

text \<open>
  The plain byte-by-byte comparison of the spans at \<open>pos\<close> and at \<open>cand\<close>: the number of
  leading positions, below \<open>max_len\<close>, at which the two spans agree.
\<close>

definition naive_match_len :: "byte list \<Rightarrow> nat \<Rightarrow> nat \<Rightarrow> nat \<Rightarrow> nat" where
  "naive_match_len data pos cand max_len =
     length (takeWhile (\<lambda>i. data ! (pos + i) = data ! (cand + i)) [0..<max_len])"

text \<open>
  The token format of the compressed stream, as a data type, with the bytes of each token
  and the conditions under which the encoder uses each kind.
\<close>

datatype token = Literal byte | Escaped byte | Match nat nat

fun token_bytes :: "token \<Rightarrow> byte list" where
  "token_bytes (Literal v) = [v]"
| "token_bytes (Escaped v) = [0xBF, v]"
| "token_bytes (Match dist len) =
     [0xC0, word_of_nat (dist mod 256), word_of_nat (dist div 256), word_of_nat (len - 3)]"

fun token_ok :: "token \<Rightarrow> bool" where
  "token_ok (Literal v) = (v \<le> 0xBE)"
| "token_ok (Escaped v) = (v \<ge> 0xBF)"
| "token_ok (Match dist len) = (1 \<le> dist \<and> dist \<le> 65535 \<and> 3 \<le> len \<and> len \<le> 258)"

text \<open>
  The tokens describe the input from position \<open>pos\<close> on, one after the other: a literal or
  an escape stands for the byte at its position, a match of distance \<open>dist\<close> and length
  \<open>len\<close> for \<open>len\<close> bytes that repeat the input \<open>dist\<close> positions back.  The result is the
  position after the last token.
\<close>

fun covers :: "byte list \<Rightarrow> nat \<Rightarrow> token list \<Rightarrow> nat option" where
  "covers input pos [] = Some pos"
| "covers input pos (Literal v # ts) =
     (if pos < length input \<and> input ! pos = v then covers input (pos + 1) ts else None)"
| "covers input pos (Escaped v # ts) =
     (if pos < length input \<and> input ! pos = v then covers input (pos + 1) ts else None)"
| "covers input pos (Match dist len # ts) =
     (if dist \<le> pos \<and> pos + len \<le> length input \<and>
         list_all (\<lambda>i. input ! (pos + i) = input ! (pos + i - dist)) [0..<len]
      then covers input (pos + len) ts else None)"

text \<open>
  Reading a byte stream token by token, by the leading byte of each token; \<open>None\<close> when the
  stream ends inside a token.
\<close>

fun parse_tokens :: "byte list \<Rightarrow> token list option" where
  "parse_tokens [] = Some []"
| "parse_tokens (x # xs) =
     (if x = 0xBF then
        (case xs of
           [] \<Rightarrow> None
         | v # r \<Rightarrow> map_option ((#) (Escaped v)) (parse_tokens r))
      else if x = 0xC0 then
        (case xs of
           lo # hi # l # r \<Rightarrow>
             map_option ((#) (Match (unat lo + 256 * unat hi) (unat l + 3))) (parse_tokens r)
         | _ \<Rightarrow> None)
      else map_option ((#) (Literal x)) (parse_tokens xs))"

section \<open>Proofs\<close>

declare comp_loop.simps [simp del]
declare dec_loop.simps [simp del]
declare vec_loop.simps [simp del]
declare scalar_loop.simps [simp del]

subsection \<open>Header and buffer lengths\<close>

lemma length_le32 [simp]: "length (le32 x) = 4"
  by (simp add: le32_def)

lemma length_le16 [simp]: "length (le16 x) = 2"
  by (simp add: le16_def)

lemma length_header [simp]: "length (header input st) = 14"
  by (simp add: header_def)

lemma find_match_short: "pos + 3 > endp \<Longrightarrow> find_match b data pos endp st = (0, 0, st)"
  by (simp add: find_match_def MIN_MATCH_def)

lemma comp_body_length:
  "comp_body b input out_size s = (c, s') \<Longrightarrow>
     length (cout s) \<le> length (cout s') \<and>
     (length (cout s) \<le> out_size \<longrightarrow> length (cout s') \<le> out_size)"
  by (auto simp: comp_body_def Let_def split: prod.splits if_splits)

lemma comp_loop_length_mono: "length (cout s) \<le> length (cout (comp_loop b input out_size s))"
proof (induction b input out_size s rule: comp_loop.induct)
  case (1 b input out_size s)
  show ?case
  proof (cases "cpos s < length input")
    case False
    then show ?thesis by (subst comp_loop.simps) simp
  next
    case True
    obtain c s' where e: "comp_body b input out_size s = (c, s')"
      by (cases "comp_body b input out_size s")
    have l: "length (cout s) \<le> length (cout s')" using comp_body_length [OF e] by simp
    show ?thesis
    proof (cases c)
      case True
      have "length (cout s') \<le> length (cout (comp_loop b input out_size s'))"
        using 1 [OF \<open>cpos s < length input\<close> e [symmetric]] True by simp
      then show ?thesis using l e True \<open>cpos s < length input\<close>
        by (subst comp_loop.simps) simp
    next
      case False
      then show ?thesis using l e \<open>cpos s < length input\<close>
        by (subst comp_loop.simps) simp
    qed
  qed
qed

lemma comp_loop_length_le:
  "length (cout s) \<le> out_size \<Longrightarrow> length (cout (comp_loop b input out_size s)) \<le> out_size"
proof (induction b input out_size s rule: comp_loop.induct)
  case (1 b input out_size s)
  show ?case
  proof (cases "cpos s < length input")
    case False
    then show ?thesis using 1(2) by (subst comp_loop.simps) simp
  next
    case True
    obtain c s' where e: "comp_body b input out_size s = (c, s')"
      by (cases "comp_body b input out_size s")
    have l: "length (cout s') \<le> out_size" using comp_body_length [OF e] 1(2) by simp
    show ?thesis
    proof (cases c)
      case True
      have "length (cout (comp_loop b input out_size s')) \<le> out_size"
        using 1(1) [OF \<open>cpos s < length input\<close> e [symmetric]] True l by simp
      then show ?thesis using e True \<open>cpos s < length input\<close>
        by (subst comp_loop.simps) simp
    next
      case False
      then show ?thesis using l e \<open>cpos s < length input\<close>
        by (subst comp_loop.simps) simp
    qed
  qed
qed

subsection \<open>The vector comparison\<close>

lemma SIMD_WIDTH_pos: "0 < SIMD_WIDTH b" by (cases b) simp_all
lemma SIMD_WIDTH_le: "SIMD_WIDTH b \<le> 32" by (cases b) simp_all

lemma bit_or_fold:
  "bit (foldl (\<lambda>m i. m OR (if P i then push_bit i 1 else 0)) (m0 :: u32) [0..<n]) j
     \<longleftrightarrow> bit m0 j \<or> (j < n \<and> j < 32 \<and> P j)"
proof (induction n)
  case 0
  show ?case by simp
next
  case (Suc n)
  show ?case
    by (auto simp: Suc bit_or_iff bit_exp_iff possible_bit_word less_Suc_eq dest: bit_imp_le_length)
qed

lemma length_VEC_LOAD [simp]: "length (VEC_LOAD b data a) = SIMD_WIDTH b"
  by (simp add: VEC_LOAD_def)

lemma nth_VEC_LOAD [simp]: "j < SIMD_WIDTH b \<Longrightarrow> VEC_LOAD b data a ! j = data ! (a + j)"
  by (simp add: VEC_LOAD_def)

lemma lane_set_cmp:
  "j < length a \<Longrightarrow> j < length c \<Longrightarrow> lane_set b (VEC_CMP a c ! j) \<longleftrightarrow> a ! j = c ! j"
  by (cases b) (simp_all add: VEC_CMP_def)

lemma bit_movemask:
  "bit (VEC_MOVEMASK b (VEC_CMP (VEC_LOAD b data p) (VEC_LOAD b data q))) j
     \<longleftrightarrow> j < SIMD_WIDTH b \<and> data ! (p + j) = data ! (q + j)"
  using SIMD_WIDTH_le [of b]
  by (auto simp: VEC_MOVEMASK_def bit_or_fold lane_set_cmp)

lemma bit_ALL_ONES: "bit (ALL_ONES b) j \<longleftrightarrow> j < SIMD_WIDTH b"
proof -
  have "ALL_ONES b = mask (SIMD_WIDTH b)"
    by (simp add: ALL_ONES_def mask_eq_exp_minus_1 push_bit_eq_mult)
  then show ?thesis using SIMD_WIDTH_le [of b] by (auto simp: bit_mask_iff)
qed

lemma movemask_all:
  "VEC_MOVEMASK b (VEC_CMP (VEC_LOAD b data p) (VEC_LOAD b data q)) = ALL_ONES b
     \<longleftrightarrow> (\<forall>j < SIMD_WIDTH b. data ! (p + j) = data ! (q + j))"
    (is "?m = _ \<longleftrightarrow> ?R")
proof
  assume e: "?m = ALL_ONES b"
  show ?R
  proof (intro allI impI)
    fix j assume j: "j < SIMD_WIDTH b"
    then have "bit (ALL_ONES b) j" by (simp add: bit_ALL_ONES)
    then have "bit ?m j" by (simp add: e)
    then show "data ! (p + j) = data ! (q + j)" by (simp add: bit_movemask)
  qed
next
  assume r: ?R
  show "?m = ALL_ONES b"
  proof (rule bit_eqI)
    fix j
    show "bit ?m j = bit (ALL_ONES b) j"
      using r by (auto simp: bit_movemask bit_ALL_ONES)
  qed
qed

lemma takeWhile_upt_prefix:
  assumes "j < length (takeWhile P [0..<n])"
  shows "P j"
proof -
  have l: "length (takeWhile P [0..<n]) \<le> n"
    using length_takeWhile_le [of P "[0..<n]"] by simp
  have "takeWhile P [0..<n] ! j = [0..<n] ! j" using assms by (rule takeWhile_nth)
  then have e: "takeWhile P [0..<n] ! j = j" using assms l by simp
  have "takeWhile P [0..<n] ! j \<in> set (takeWhile P [0..<n])"
    using assms by (rule nth_mem)
  then have "P (takeWhile P [0..<n] ! j)" by (rule set_takeWhileD [THEN conjunct2])
  then show ?thesis by (simp only: e)
qed

lemma first_diff_agree:
  assumes "j < first_diff b (VEC_MOVEMASK b (VEC_CMP (VEC_LOAD b data p) (VEC_LOAD b data q)))"
  shows "j < SIMD_WIDTH b \<and> data ! (p + j) = data ! (q + j)"
proof (cases "b = AVX2_SCAN")
  case False
  then have "first_diff b (VEC_MOVEMASK b (VEC_CMP (VEC_LOAD b data p) (VEC_LOAD b data q)))
      = ctz (NOT (VEC_MOVEMASK b (VEC_CMP (VEC_LOAD b data p) (VEC_LOAD b data q))))"
    by (cases b) simp_all
  with assms have "\<not> bit (NOT (VEC_MOVEMASK b (VEC_CMP (VEC_LOAD b data p) (VEC_LOAD b data q)))) j"
    and "j < 32"
    using length_takeWhile_le [of "\<lambda>j. \<not> bit (NOT (VEC_MOVEMASK b (VEC_CMP (VEC_LOAD b data p) (VEC_LOAD b data q)))) j" "[0..<32]"]
    by (auto simp: ctz_def dest: takeWhile_upt_prefix)
  then show ?thesis by (simp add: bit_not_iff bit_movemask)
next
  case True
  let ?m = "VEC_MOVEMASK b (VEC_CMP (VEC_LOAD b data p) (VEC_LOAD b data q))"
  have odd: "\<And>i. (drop_bit i ?m AND 1 = 0) \<longleftrightarrow> \<not> bit ?m i"
    by (simp add: bit_iff_odd_drop_bit and_one_eq even_iff_mod_2_eq_zero)
  from assms True obtain k where f: "find (\<lambda>j. drop_bit j ?m AND 1 = 0) [0..<32] = Some k" and jk: "j < k"
    by (auto split: option.splits)
  from f have "k < 32" and "\<forall>i<k. \<not> (drop_bit i ?m AND 1 = 0)"
    by (auto simp: find_Some_iff)
  with jk have "bit ?m j" by (simp add: odd)
  then show ?thesis by (simp add: bit_movemask)
qed

lemma naive_match_len_char:
  assumes "n \<le> max_len" and "\<forall>i<n. data ! (pos + i) = data ! (cand + i)"
    and "n < max_len \<Longrightarrow> data ! (pos + n) \<noteq> data ! (cand + n)"
  shows "naive_match_len data pos cand max_len = n"
proof -
  let ?P = "\<lambda>i. data ! (pos + i) = data ! (cand + i)"
  have split: "[0..<max_len] = [0..<n] @ [n..<max_len]"
    using assms(1) by (metis le_add_diff_inverse upt_add_eq_append zero_le)
  have all: "\<forall>x\<in>set [0..<n]. ?P x" using assms(2) by simp
  have "takeWhile ?P [0..<max_len] = [0..<n] @ takeWhile ?P [n..<max_len]"
    unfolding split by (rule takeWhile_append2) (use all in auto)
  moreover have "takeWhile ?P [n..<max_len] = []"
  proof (cases "n < max_len")
    case True
    then show ?thesis using assms(3) by (simp add: upt_conv_Cons)
  next
    case False
    then show ?thesis by simp
  qed
  ultimately show ?thesis by (simp add: naive_match_len_def)
qed

lemma vec_loop_sound:
  "len \<le> max_len \<Longrightarrow> \<forall>i<len. data ! (pos + i) = data ! (unat cand + i) \<Longrightarrow>
   (let r = vec_loop b data pos cand max_len len
    in len \<le> r \<and> r \<le> max_len \<and> (\<forall>i<r. data ! (pos + i) = data ! (unat cand + i)))"
proof (induction b data pos cand max_len len rule: vec_loop.induct)
  case (1 b data pos cand max_len len)
  let ?m = "VEC_MOVEMASK b (VEC_CMP (VEC_LOAD b data (pos + len)) (VEC_LOAD b data (unat cand + len)))"
  show ?case
  proof (cases "len + SIMD_WIDTH b \<le> max_len")
    case False
    then show ?thesis using 1(2,3) by (subst vec_loop.simps) simp
  next
    case fits: True
    show ?thesis
    proof (cases "?m = ALL_ONES b")
      case True
      then have blk: "\<forall>j<SIMD_WIDTH b. data ! (pos + len + j) = data ! (unat cand + len + j)"
        by (simp add: movemask_all)
      have ext: "\<forall>i<len + SIMD_WIDTH b. data ! (pos + i) = data ! (unat cand + i)"
      proof (intro allI impI)
        fix i assume i: "i < len + SIMD_WIDTH b"
        show "data ! (pos + i) = data ! (unat cand + i)"
        proof (cases "i < len")
          case True then show ?thesis using 1(3) by simp
        next
          case False
          then have "i - len < SIMD_WIDTH b" and "i = len + (i - len)" using i by auto
          then show ?thesis using blk [rule_format, of "i - len"] by (metis add.assoc)
        qed
      qed
      have ih: "let r = vec_loop b data pos cand max_len (len + SIMD_WIDTH b)
          in len + SIMD_WIDTH b \<le> r \<and> r \<le> max_len \<and> (\<forall>i<r. data ! (pos + i) = data ! (unat cand + i))"
        using 1(1) [OF fits refl refl refl _ fits ext] True by simp
      have "vec_loop b data pos cand max_len len = vec_loop b data pos cand max_len (len + SIMD_WIDTH b)"
        using fits True by (subst vec_loop.simps) (simp add: Let_def)
      then show ?thesis using ih by (simp add: Let_def)
    next
      case False
      let ?k = "first_diff b ?m"
      have r: "vec_loop b data pos cand max_len len = len + ?k"
        using fits False by (subst vec_loop.simps) (simp add: Let_def)
      have k: "\<forall>j<?k. j < SIMD_WIDTH b \<and> data ! (pos + len + j) = data ! (unat cand + len + j)"
        using first_diff_agree by blast
      have kle: "?k \<le> SIMD_WIDTH b"
      proof (rule ccontr)
        assume "\<not> ?k \<le> SIMD_WIDTH b"
        then have "SIMD_WIDTH b < ?k" by simp
        with k show False by blast
      qed
      have ext: "\<forall>i<len + ?k. data ! (pos + i) = data ! (unat cand + i)"
      proof (intro allI impI)
        fix i assume i: "i < len + ?k"
        show "data ! (pos + i) = data ! (unat cand + i)"
        proof (cases "i < len")
          case True then show ?thesis using 1(3) by simp
        next
          case False
          then have "i - len < ?k" and "i = len + (i - len)" using i by auto
          then show ?thesis using k [rule_format, of "i - len"] by (metis add.assoc)
        qed
      qed
      show ?thesis using r ext kle fits by (simp add: Let_def)
    qed
  qed
qed

lemma scalar_loop_char:
  "len \<le> max_len \<Longrightarrow> unat cand + max_len \<le> 2 ^ 32 \<Longrightarrow>
   \<forall>i<len. data ! (pos + i) = data ! (unat cand + i) \<Longrightarrow>
   scalar_loop data pos cand max_len len = naive_match_len data pos (unat cand) max_len"
proof (induction data pos cand max_len len rule: scalar_loop.induct)
  case (1 data pos cand max_len len)
  have idx: "len < max_len \<Longrightarrow> unat (cand + word_of_nat len) = unat cand + len"
  proof -
    assume "len < max_len"
    then have "unat cand + len < 2 ^ 32" using 1(3) by simp
    then show ?thesis by (simp add: unat_word_ariths unat_of_nat take_bit_nat_eq_self)
  qed
  show ?case
  proof (cases "len < max_len \<and> data ! (pos + len) = data ! (unat cand + len)")
    case True
    then have "\<forall>i<len + 1. data ! (pos + i) = data ! (unat cand + i)"
      using 1(4) by (auto simp: less_Suc_eq)
    then have "scalar_loop data pos cand max_len (len + 1) = naive_match_len data pos (unat cand) max_len"
      using 1(1) True idx 1(3) by simp
    then show ?thesis using True idx by (subst scalar_loop.simps) simp
  next
    case False
    then have "scalar_loop data pos cand max_len len = len"
      using idx by (subst scalar_loop.simps) auto
    moreover have "naive_match_len data pos (unat cand) max_len = len"
      using 1(2,4) False by (intro naive_match_len_char) auto
    ultimately show ?thesis by simp
  qed
qed

subsection \<open>Capacity tests of the encoder\<close>

text \<open>
  C9.  With one byte of capacity left after the header, the one-byte direct literal is not
  emitted: \<^verbatim>\<open>nanozip_compress\<close> on the input \<open>[0x41]\<close> with \<open>out_size = 15\<close> returns 14, the
  header alone.  The literal tests stop at \<open>remaining \<le> size\<close>, the match test at
  \<open>remaining < size\<close>.
\<close>

theorem literal_not_emitted: "fst (nanozip_compress PORTABLE [0x41] 15 0) = 14"
  by (simp add: nanozip_compress_def compress_final_def Let_def comp_loop.simps comp_body_def
        find_match_short MIN_MATCH_def)

text \<open>
  C4 (as amended).  \<^verbatim>\<open>nanozip_compress\<close> returns 0 exactly when the output capacity is smaller
  than the input size plus the 14 bytes of the header; otherwise it returns the number of
  bytes written, which is at least 14 and at most the capacity.
\<close>

theorem compress_zero_iff:
  "(fst (nanozip_compress b input out_size w) = 0 \<longleftrightarrow> out_size < length input + 14) \<and>
   (length input + 14 \<le> out_size \<longrightarrow>
      14 \<le> fst (nanozip_compress b input out_size w) \<and>
      fst (nanozip_compress b input out_size w) \<le> out_size \<and>
      length (snd (nanozip_compress b input out_size w))
        = fst (nanozip_compress b input out_size w))"
proof -
  let ?s0 = "\<lparr>cpos = 0, cout = header input (nz_init (size_t_of_int w)),
              cst = nz_init (size_t_of_int w)\<rparr>"
  have lo: "14 \<le> length (cout (comp_loop b input out_size ?s0))"
    using comp_loop_length_mono [of ?s0 b input out_size] by simp
  have hi: "14 \<le> out_size \<Longrightarrow> length (cout (comp_loop b input out_size ?s0)) \<le> out_size"
    using comp_loop_length_le [of ?s0 out_size b input] by simp
  show ?thesis using lo hi
    by (auto simp: nanozip_compress_def compress_final_def Let_def)
qed

theorem compress_zero_iff_witness:
  "length [0x41 :: byte] + 14 \<le> 15 \<and> 14 \<le> fst (nanozip_compress PORTABLE [0x41] 15 0) \<and>
   fst (nanozip_compress PORTABLE [0x41] 15 0) \<le> 15"
  using compress_zero_iff [of PORTABLE "[0x41]" 15 0] by simp

text \<open>
  A capacity of 14 bytes holds the header, and still the result on a one-byte input is 0.
\<close>

theorem compress_zero_counterexample:
  "\<not> (fst (nanozip_compress PORTABLE [0x41] 14 0) = 0 \<longleftrightarrow> (14 :: nat) < 14)"
  by (simp add: nanozip_compress_def)

subsection \<open>The decoder\<close>

lemma out_pos_put [simp]: "out_pos (put v s) = out_pos s + 1" by (simp add: put_def)
lemma in_ptr_put [simp]: "in_ptr (put v s) = in_ptr s" by (simp add: put_def)
lemma in_remain_put [simp]: "in_remain (put v s) = in_remain s" by (simp add: put_def)
lemma length_outb_put [simp]: "length (outb (put v s)) = length (outb s)" by (simp add: put_def)
lemma trace_put [simp]: "trace (put v s) = trace s @ [Wr (out_pos s)]" by (simp add: put_def)
lemma outb_put [simp]: "outb (put v s) = (outb s)[out_pos s := v]" by (simp add: put_def)

lemma out_pos_copy_match [simp]: "out_pos (copy_match n dist s) = out_pos s + n"
  by (induction n arbitrary: s) simp_all
lemma in_ptr_copy_match [simp]: "in_ptr (copy_match n dist s) = in_ptr s"
  by (induction n arbitrary: s) simp_all
lemma in_remain_copy_match [simp]: "in_remain (copy_match n dist s) = in_remain s"
  by (induction n arbitrary: s) simp_all
lemma length_outb_copy_match [simp]: "length (outb (copy_match n dist s)) = length (outb s)"
  by (induction n arbitrary: s) simp_all

lemma dec_run_loop:
  "dec_run inp ds k s0 = Some s \<Longrightarrow> dec_loop inp ds s0 = dec_loop inp ds s"
proof (induction k arbitrary: s0)
  case 0
  then show ?case by simp
next
  case (Suc k)
  from Suc.prems obtain s1 where c: "in_remain s0 > 0" "out_pos s0 < ds"
    and b: "dec_body inp ds s0 = (True, s1)" and r: "dec_run inp ds k s1 = Some s"
    by (auto split: if_splits prod.splits bool.splits)
  have "dec_loop inp ds s0 = dec_loop inp ds s1"
    using c b by (subst dec_loop.simps) simp
  with Suc.IH [OF r] show ?case by simp
qed

lemma dec_loop_truncated:
  "truncated_token inp ds s \<Longrightarrow> out_pos (dec_loop inp ds s) < ds"
  by (subst dec_loop.simps) (auto simp: truncated_token_def dec_body_def Let_def)

lemma dec_loop_bad_match:
  assumes "at_match inp ds s"
    and "match_length inp (in_ptr s) > MAX_MATCH \<or> match_distance inp (in_ptr s) = 0 \<or>
         match_distance inp (in_ptr s) > out_pos s \<or> out_pos s + match_length inp (in_ptr s) > ds"
  shows "out_pos (dec_loop inp ds s) < ds"
  using assms by (subst dec_loop.simps) (auto simp: at_match_def dec_body_def Let_def)

lemma take_bit_distance:
  "take_bit 16 ((ucast (a :: byte) :: u32) OR push_bit 8 (ucast (c :: byte)))
     = (ucast a OR push_bit 8 (ucast c))"
  apply (rule bit_eqI)
  apply (simp add: bit_take_bit_iff bit_or_iff bit_push_bit_iff bit_ucast_iff)
  apply (auto dest: bit_imp_le_length)
  done

lemma match_distance_less: "match_distance inp ip < 65536"
proof -
  let ?x = "(ucast (inp ! (ip + 1)) :: u32) OR push_bit 8 (ucast (inp ! (ip + 2)))"
  have "unat ?x = unat (take_bit 16 ?x)" by (simp only: take_bit_distance)
  also have "\<dots> = take_bit 16 (unat ?x)" by (rule unsigned_take_bit_eq)
  also have "\<dots> < 2 ^ 16" by (rule take_bit_nat_less_exp)
  finally show ?thesis by (simp add: match_distance_def)
qed

lemma decompress_ret:
  "fst (nanozip_decompress inp output) =
     (if length inp < 14 \<or> hdr_magic inp \<noteq> NZ_MAGIC \<or> hdr_window inp = 0 \<or> hdr_window inp > MAX_WINDOW
          \<or> hdr_size inp > length output
          \<or> out_pos (dec_loop inp (hdr_size inp) (dec_start inp output)) \<noteq> hdr_size inp
          \<or> nz_crc32 (outb (dec_loop inp (hdr_size inp) (dec_start inp output))) (hdr_size inp) \<noteq> hdr_crc inp
      then 0 else hdr_size inp)"
  by (simp add: nanozip_decompress_def Let_def)

lemma crc_bits_8: "crc_bits 8 c = crc_bit (crc_bit (crc_bit (crc_bit (crc_bit (crc_bit (crc_bit (crc_bit c)))))))"
  by (simp add: eval_nat_numeral)

lemma copy_match_numeral:
  "copy_match (numeral k) dist s =
     copy_match (pred_numeral k) dist
       (put (outb s ! size_t_sub (out_pos s) dist)
            (s\<lparr>trace := trace s @ [Rd (size_t_sub (out_pos s) dist)]\<rparr>))"
  by (simp add: numeral_eq_Suc)

lemma size_t_sub_le:
  assumes "b \<le> a" and "a < 2 ^ 64"
  shows "size_t_sub a b = a - b"
proof -
  have "b mod 2 ^ 64 = b" using assms by simp
  then have "size_t_sub a b = (a + 2 ^ 64 - b) mod 2 ^ 64" by (simp only: size_t_sub_def)
  also have "a + 2 ^ 64 - b = (a - b) + 2 ^ 64" using assms(1) by simp
  also have "((a - b) + 2 ^ 64) mod 2 ^ 64 = (a - b) mod 2 ^ 64" by (rule mod_add_self2)
  also have "\<dots> = a - b" using assms(2) by simp
  finally show ?thesis .
qed

lemma hdr_size_less: "hdr_size inp < 2 ^ 32"
  using unsigned_less [of "rd32 inp 4", where ?'a = nat] by (simp add: hdr_size_def)

lemmas dec_eval = nanozip_decompress_def hdr_magic_def hdr_size_def hdr_crc_def hdr_window_def
  dec_start_def dec_loop.simps dec_body_def put_def Let_def rd32_def rd16_def
  match_length_def match_distance_def NZ_MAGIC_def MAX_WINDOW_def MIN_MATCH_def MAX_MATCH_def
  copy_match_numeral size_t_sub_def

lemmas crc_eval = nz_crc32_def crc_byte_def crc_bits_8 crc_bit_def CRC32_POLY_def upt_conv_Cons

lemma trace_inv_put:
  "trace_inv lim s \<Longrightarrow> out_pos s < lim \<Longrightarrow> trace_inv lim (put v s)"
  unfolding trace_inv_def
proof (intro conjI allI impI)
  assume a: "out_pos s \<le> lim \<and> (\<forall>t. trace_ok lim (out_pos s) t \<longrightarrow> trace_ok lim 0 (trace s @ t))"
    and l: "out_pos s < lim"
  show "out_pos (put v s) \<le> lim" using l by simp
  fix t assume t: "trace_ok lim (out_pos (put v s)) t"
  then have "trace_ok lim (out_pos s) (Wr (out_pos s) # t)" using l by simp
  with a have "trace_ok lim 0 (trace s @ Wr (out_pos s) # t)" by blast
  then show "trace_ok lim 0 (trace (put v s) @ t)" by simp
qed

lemma trace_inv_read:
  "trace_inv lim s \<Longrightarrow> i < out_pos s \<Longrightarrow> trace_inv lim (s\<lparr>trace := trace s @ [Rd i]\<rparr>)"
  unfolding trace_inv_def
proof (intro conjI allI impI)
  assume a: "out_pos s \<le> lim \<and> (\<forall>t. trace_ok lim (out_pos s) t \<longrightarrow> trace_ok lim 0 (trace s @ t))"
    and l: "i < out_pos s"
  show "out_pos (s\<lparr>trace := trace s @ [Rd i]\<rparr>) \<le> lim" using a by simp
  fix t assume t: "trace_ok lim (out_pos (s\<lparr>trace := trace s @ [Rd i]\<rparr>)) t"
  then have "trace_ok lim (out_pos s) (Rd i # t)" using l by simp
  with a have "trace_ok lim 0 (trace s @ Rd i # t)" by blast
  then show "trace_ok lim 0 (trace (s\<lparr>trace := trace s @ [Rd i]\<rparr>) @ t)" by simp
qed

lemma trace_inv_copy_match:
  "trace_inv lim s \<Longrightarrow> 1 \<le> dist \<Longrightarrow> dist \<le> out_pos s \<Longrightarrow> out_pos s + n \<le> lim \<Longrightarrow>
   lim \<le> 2 ^ 64 \<Longrightarrow> trace_inv lim (copy_match n dist s)"
proof (induction n arbitrary: s)
  case 0
  then show ?case by simp
next
  case (Suc n)
  have i: "size_t_sub (out_pos s) dist = out_pos s - dist"
    using Suc.prems by (intro size_t_sub_le) auto
  let ?s1 = "s\<lparr>trace := trace s @ [Rd (out_pos s - dist)]\<rparr>"
  have "trace_inv lim ?s1" using Suc.prems by (intro trace_inv_read) auto
  then have "trace_inv lim (put (outb s ! (out_pos s - dist)) ?s1)"
    using Suc.prems by (intro trace_inv_put) auto
  then have "trace_inv lim (copy_match n dist (put (outb s ! (out_pos s - dist)) ?s1))"
    using Suc.prems by (intro Suc.IH) auto
  then show ?case by (simp add: i)
qed

lemma trace_inv_update [simp]:
  "trace_inv lim (s\<lparr>in_ptr := a, in_remain := r\<rparr>) = trace_inv lim s"
  by (simp add: trace_inv_def)

lemma trace_inv_dec_body:
  assumes "trace_inv lim s" and "out_pos s < lim" and "lim \<le> 2 ^ 64"
  shows "trace_inv lim (snd (dec_body inp lim s))"
  using assms
  by (auto simp: dec_body_def Let_def intro!: trace_inv_put trace_inv_copy_match)

lemma length_outb_dec_body: "length (outb (snd (dec_body inp lim s))) = length (outb s)"
  by (auto simp: dec_body_def Let_def)

lemma dec_loop_inv:
  "trace_inv lim s \<Longrightarrow> lim \<le> 2 ^ 64 \<Longrightarrow>
   trace_inv lim (dec_loop inp lim s) \<and> length (outb (dec_loop inp lim s)) = length (outb s)"
proof (induction inp lim s rule: dec_loop.induct)
  case (1 inp data_size s)
  show ?case
  proof (cases "in_remain s > 0 \<and> out_pos s < data_size")
    case False
    then show ?thesis using 1(2) by (subst (1 2) dec_loop.simps) auto
  next
    case True
    obtain c s' where b: "dec_body inp data_size s = (c, s')" by (cases "dec_body inp data_size s")
    have i: "trace_inv data_size s'" and l: "length (outb s') = length (outb s)"
      using trace_inv_dec_body [OF 1(2) _ 1(3), of inp] length_outb_dec_body [of inp data_size s] True b
      by auto
    show ?thesis
    proof (cases c)
      case True
      with 1(1) [OF \<open>in_remain s > 0 \<and> out_pos s < data_size\<close> b [symmetric] _ _ 1(3)] i l b
        \<open>in_remain s > 0 \<and> out_pos s < data_size\<close>
      show ?thesis by (subst (1 2) dec_loop.simps) simp
    next
      case False
      with i l b \<open>in_remain s > 0 \<and> out_pos s < data_size\<close>
      show ?thesis by (subst (1 2) dec_loop.simps) simp
    qed
  qed
qed

lemma trace_ok_reads: "trace_ok lim w (map Rd xs) \<longleftrightarrow> (\<forall>x\<in>set xs. x < w)"
  by (induction xs) auto

lemma trace_ok_bound:
  "trace_ok lim w tr \<Longrightarrow> w \<le> lim \<Longrightarrow> a \<in> set tr \<Longrightarrow> idx a < lim"
proof (induction tr arbitrary: w)
  case Nil
  then show ?case by simp
next
  case (Cons x tr)
  then show ?case by (cases x) (auto split: if_splits)
qed

lemma trace_inv_start: "trace_inv lim (dec_start inp output)"
  by (simp add: trace_inv_def dec_start_def)

lemmas run_eval = dec_run.simps dec_start_def dec_body_def put_def Let_def hdr_size_def rd32_def
  truncated_token_def at_match_def match_length_def match_distance_def MIN_MATCH_def MAX_MATCH_def
  copy_match_numeral size_t_sub_def hdr_window_def rd16_def

text \<open>
  C2 (as amended).  \<^verbatim>\<open>nanozip_decompress\<close> returns 0 whenever the input is shorter than 14
  bytes, the magic differs from \<open>0x5A4E5A50\<close>, the window size of the header is 0 or above
  65535, the declared size exceeds the capacity of the output buffer, the token loop, at some
  turn at which fewer bytes than the declared size have been produced, comes to read an
  escape or a match token that the input ends inside of, the number of bytes produced by the
  loop differs from the declared size, or the checksum of the produced bytes differs from
  the one in the header.  Every non-zero return value is the declared size.
\<close>

theorem decompress_failures:
  "(length inp < 14 \<or> hdr_magic inp \<noteq> NZ_MAGIC \<or> hdr_window inp = 0 \<or> hdr_window inp > 65535
      \<or> hdr_size inp > length output
      \<or> (\<exists>k s. dec_run inp (hdr_size inp) k (dec_start inp output) = Some s
                \<and> truncated_token inp (hdr_size inp) s)
      \<or> out_pos (dec_loop inp (hdr_size inp) (dec_start inp output)) \<noteq> hdr_size inp
      \<or> nz_crc32 (outb (dec_loop inp (hdr_size inp) (dec_start inp output))) (hdr_size inp)
            \<noteq> hdr_crc inp
    \<longrightarrow> fst (nanozip_decompress inp output) = 0) \<and>
   (fst (nanozip_decompress inp output) \<noteq> 0
    \<longrightarrow> fst (nanozip_decompress inp output) = hdr_size inp)"
proof -
  have t: "out_pos (dec_loop inp (hdr_size inp) (dec_start inp output)) \<noteq> hdr_size inp"
    if "dec_run inp (hdr_size inp) k (dec_start inp output) = Some s"
      and "truncated_token inp (hdr_size inp) s" for k s
    using dec_run_loop [OF that(1)] dec_loop_truncated [OF that(2)] by simp
  show ?thesis
    unfolding decompress_ret using t by (auto simp: MAX_WINDOW_def)
qed


theorem decompress_failures_witness:
  "dec_run [0x50, 0x5A, 0x4E, 0x5A, 2, 0, 0, 0, 0, 0, 0, 0, 1, 0, 0x41, 0xBF] (hdr_size [0x50, 0x5A, 0x4E, 0x5A, 2, 0, 0, 0, 0, 0, 0, 0, 1, 0, 0x41, 0xBF]) (Suc 0) (dec_start [0x50, 0x5A, 0x4E, 0x5A, 2, 0, 0, 0, 0, 0, 0, 0, 1, 0, 0x41, 0xBF] [0, 0])
     = Some \<lparr>in_ptr = 15, in_remain = 1, outb = [0x41, 0], out_pos = 1, trace = [Wr 0]\<rparr> \<and>
   truncated_token [0x50, 0x5A, 0x4E, 0x5A, 2, 0, 0, 0, 0, 0, 0, 0, 1, 0, 0x41, 0xBF] (hdr_size [0x50, 0x5A, 0x4E, 0x5A, 2, 0, 0, 0, 0, 0, 0, 0, 1, 0, 0x41, 0xBF])
     \<lparr>in_ptr = 15, in_remain = 1, outb = [0x41, 0], out_pos = 1, trace = [Wr 0]\<rparr> \<and>
   fst (nanozip_decompress [0x50, 0x5A, 0x4E, 0x5A, 2, 0, 0, 0, 0, 0, 0, 0, 1, 0, 0x41, 0xBF] [0, 0]) = 0 \<and>
   fst (nanozip_decompress [0x50, 0x5A, 0x4E, 0x5A, 5, 0, 0, 0, 148, 111, 52, 215, 1, 0, 0x61, 0x62, 0xC0, 2, 0, 0] [0, 0, 0, 0, 0]) \<noteq> 0 \<and>
   fst (nanozip_decompress [0x50, 0x5A, 0x4E, 0x5A, 5, 0, 0, 0, 148, 111, 52, 215, 1, 0, 0x61, 0x62, 0xC0, 2, 0, 0] [0, 0, 0, 0, 0]) = hdr_size [0x50, 0x5A, 0x4E, 0x5A, 5, 0, 0, 0, 148, 111, 52, 215, 1, 0, 0x61, 0x62, 0xC0, 2, 0, 0]"
proof -
  have r: "dec_run [0x50, 0x5A, 0x4E, 0x5A, 2, 0, 0, 0, 0, 0, 0, 0, 1, 0, 0x41, 0xBF] (hdr_size [0x50, 0x5A, 0x4E, 0x5A, 2, 0, 0, 0, 0, 0, 0, 0, 1, 0, 0x41, 0xBF]) (Suc 0) (dec_start [0x50, 0x5A, 0x4E, 0x5A, 2, 0, 0, 0, 0, 0, 0, 0, 1, 0, 0x41, 0xBF] [0, 0])
     = Some \<lparr>in_ptr = 15, in_remain = 1, outb = [0x41, 0], out_pos = 1, trace = [Wr 0]\<rparr>"
    by (simp add: run_eval)
  have t: "truncated_token [0x50, 0x5A, 0x4E, 0x5A, 2, 0, 0, 0, 0, 0, 0, 0, 1, 0, 0x41, 0xBF] (hdr_size [0x50, 0x5A, 0x4E, 0x5A, 2, 0, 0, 0, 0, 0, 0, 0, 1, 0, 0x41, 0xBF])
     \<lparr>in_ptr = 15, in_remain = 1, outb = [0x41, 0], out_pos = 1, trace = [Wr 0]\<rparr>"
    by (simp add: run_eval)
  have z: "fst (nanozip_decompress [0x50, 0x5A, 0x4E, 0x5A, 2, 0, 0, 0, 0, 0, 0, 0, 1, 0, 0x41, 0xBF] [0, 0]) = 0"
    using decompress_failures [of "[0x50, 0x5A, 0x4E, 0x5A, 2, 0, 0, 0, 0, 0, 0, 0, 1, 0, 0x41, 0xBF]" "[0, 0]"] r t by blast
  have n: "fst (nanozip_decompress [0x50, 0x5A, 0x4E, 0x5A, 5, 0, 0, 0, 148, 111, 52, 215, 1, 0, 0x61, 0x62, 0xC0, 2, 0, 0] [0, 0, 0, 0, 0]) \<noteq> 0"
    by (simp add: dec_eval crc_eval)
  have h: "fst (nanozip_decompress [0x50, 0x5A, 0x4E, 0x5A, 5, 0, 0, 0, 148, 111, 52, 215, 1, 0, 0x61, 0x62, 0xC0, 2, 0, 0] [0, 0, 0, 0, 0]) = hdr_size [0x50, 0x5A, 0x4E, 0x5A, 5, 0, 0, 0, 148, 111, 52, 215, 1, 0, 0x61, 0x62, 0xC0, 2, 0, 0]"
    using decompress_failures [of "[0x50, 0x5A, 0x4E, 0x5A, 5, 0, 0, 0, 148, 111, 52, 215, 1, 0, 0x61, 0x62, 0xC0, 2, 0, 0]" "[0, 0, 0, 0, 0]"] n by blast
  show ?thesis using r t z n h by blast
qed

text \<open>
  The claim as stated asks for 0 whenever the stream ends inside a token.  The stream below
  declares two bytes, holds the two literals \<open>0x61\<close>, \<open>0x62\<close> and then a lone escape marker,
  so it ends inside an escape token; its checksum field is that of the two bytes.  After
  two turns the declared size is reached, the loop ends with the marker unread, and the
  result is 2.
\<close>

theorem decompress_failures_counterexample:
  "parse_tokens (drop 14 [0x50, 0x5A, 0x4E, 0x5A, 2, 0, 0, 0, 109, 72, 131, 158, 1, 0, 0x61, 0x62, 0xBF]) = None \<and>
   dec_run [0x50, 0x5A, 0x4E, 0x5A, 2, 0, 0, 0, 109, 72, 131, 158, 1, 0, 0x61, 0x62, 0xBF] 2 (Suc (Suc 0))
       (dec_start [0x50, 0x5A, 0x4E, 0x5A, 2, 0, 0, 0, 109, 72, 131, 158, 1, 0, 0x61, 0x62, 0xBF] [0, 0])
     = Some \<lparr>in_ptr = 16, in_remain = 1, outb = [0x61, 0x62], out_pos = 2, trace = [Wr 0, Wr 1]\<rparr> \<and>
   [0x50, 0x5A, 0x4E, 0x5A, 2, 0, 0, 0, 109, 72, 131, 158, 1, 0, 0x61, 0x62, 0xBF] ! 16 = (0xBF :: byte) \<and>
   fst (nanozip_decompress [0x50, 0x5A, 0x4E, 0x5A, 2, 0, 0, 0, 109, 72, 131, 158, 1, 0, 0x61, 0x62, 0xBF] [0, 0]) = 2"
proof -
  have p: "parse_tokens (drop 14 [0x50, 0x5A, 0x4E, 0x5A, 2, 0, 0, 0, 109, 72, 131, 158, 1, 0, 0x61, 0x62, 0xBF]) = None"
    by simp
  have r: "dec_run [0x50, 0x5A, 0x4E, 0x5A, 2, 0, 0, 0, 109, 72, 131, 158, 1, 0, 0x61, 0x62, 0xBF] 2 (Suc (Suc 0))
       (dec_start [0x50, 0x5A, 0x4E, 0x5A, 2, 0, 0, 0, 109, 72, 131, 158, 1, 0, 0x61, 0x62, 0xBF] [0, 0])
     = Some \<lparr>in_ptr = 16, in_remain = 1, outb = [0x61, 0x62], out_pos = 2, trace = [Wr 0, Wr 1]\<rparr>"
    by (simp add: run_eval)
  have n: "fst (nanozip_decompress [0x50, 0x5A, 0x4E, 0x5A, 2, 0, 0, 0, 109, 72, 131, 158, 1, 0, 0x61, 0x62, 0xBF] [0, 0]) = 2"
    by (simp add: dec_eval crc_eval)
  show ?thesis using p r n by simp
qed

lemma match_bounds_aux:

  "fst (nanozip_decompress inp output) \<noteq> 0 \<and>
   dec_run inp (hdr_size inp) k (dec_start inp output) = Some s \<and>
   at_match inp (hdr_size inp) s
   \<longrightarrow> 3 \<le> match_length inp (in_ptr s) \<and> match_length inp (in_ptr s) \<le> 258 \<and>
       1 \<le> match_distance inp (in_ptr s) \<and> match_distance inp (in_ptr s) \<le> out_pos s \<and>
       match_distance inp (in_ptr s) \<le> 65535 \<and>
       out_pos s + match_length inp (in_ptr s) \<le> hdr_size inp"
proof (intro impI, elim conjE)
  assume nz: "fst (nanozip_decompress inp output) \<noteq> 0"
    and r: "dec_run inp (hdr_size inp) k (dec_start inp output) = Some s"
    and m: "at_match inp (hdr_size inp) s"
  have fin: "out_pos (dec_loop inp (hdr_size inp) s) = hdr_size inp"
    using nz dec_run_loop [OF r] by (auto simp: decompress_ret split: if_splits)
  have ok: "\<not> (match_length inp (in_ptr s) > MAX_MATCH \<or> match_distance inp (in_ptr s) = 0 \<or>
         match_distance inp (in_ptr s) > out_pos s \<or> out_pos s + match_length inp (in_ptr s) > hdr_size inp)"
  proof
    assume "match_length inp (in_ptr s) > MAX_MATCH \<or> match_distance inp (in_ptr s) = 0 \<or>
         match_distance inp (in_ptr s) > out_pos s \<or> out_pos s + match_length inp (in_ptr s) > hdr_size inp"
    then have "out_pos (dec_loop inp (hdr_size inp) s) < hdr_size inp"
      by (rule dec_loop_bad_match [OF m])
    with fin show False by simp
  qed
  have d: "match_distance inp (in_ptr s) \<le> 65535"
    using match_distance_less [of inp "in_ptr s"] by simp
  show "3 \<le> match_length inp (in_ptr s) \<and> match_length inp (in_ptr s) \<le> 258 \<and>
       1 \<le> match_distance inp (in_ptr s) \<and> match_distance inp (in_ptr s) \<le> out_pos s \<and>
       match_distance inp (in_ptr s) \<le> 65535 \<and>
       out_pos s + match_length inp (in_ptr s) \<le> hdr_size inp"
    using ok d by (auto simp: MAX_MATCH_def match_length_def MIN_MATCH_def)
qed


text \<open>
  C3 (as amended).  In a run of \<^verbatim>\<open>nanozip_decompress\<close> that returns non-zero, every match token
  the loop reads has a length in \<open>[3, 258]\<close> and a distance in \<open>[1, out_pos]\<close>, \<open>out_pos\<close> being
  the output position at that moment (so at most 65535, the largest 16-bit value), and the
  copy stays within the declared size; the window size of the header does not bound the
  distance.  A match token with distance 0, with a distance beyond the output position, or
  whose copy would pass the declared size makes the run return 0.
\<close>

theorem match_bounds:
  "(fst (nanozip_decompress inp output) \<noteq> 0 \<and>
    dec_run inp (hdr_size inp) k (dec_start inp output) = Some s \<and>
    at_match inp (hdr_size inp) s
    \<longrightarrow> 3 \<le> match_length inp (in_ptr s) \<and> match_length inp (in_ptr s) \<le> 258 \<and>
        1 \<le> match_distance inp (in_ptr s) \<and> match_distance inp (in_ptr s) \<le> out_pos s \<and>
        match_distance inp (in_ptr s) \<le> 65535 \<and>
        out_pos s + match_length inp (in_ptr s) \<le> hdr_size inp) \<and>
   (dec_run inp (hdr_size inp) k (dec_start inp output) = Some s \<and>
    at_match inp (hdr_size inp) s \<and>
    (match_distance inp (in_ptr s) = 0 \<or> match_distance inp (in_ptr s) > out_pos s \<or>
     out_pos s + match_length inp (in_ptr s) > hdr_size inp)
    \<longrightarrow> fst (nanozip_decompress inp output) = 0)"
  using match_bounds_aux [of inp "output" k s] by auto

theorem match_bounds_witness:
  "fst (nanozip_decompress [0x50, 0x5A, 0x4E, 0x5A, 5, 0, 0, 0, 148, 111, 52, 215, 1, 0, 0x61, 0x62, 0xC0, 2, 0, 0] [0, 0, 0, 0, 0]) \<noteq> 0 \<and>
   dec_run [0x50, 0x5A, 0x4E, 0x5A, 5, 0, 0, 0, 148, 111, 52, 215, 1, 0, 0x61, 0x62, 0xC0, 2, 0, 0] (hdr_size [0x50, 0x5A, 0x4E, 0x5A, 5, 0, 0, 0, 148, 111, 52, 215, 1, 0, 0x61, 0x62, 0xC0, 2, 0, 0]) (Suc (Suc 0)) (dec_start [0x50, 0x5A, 0x4E, 0x5A, 5, 0, 0, 0, 148, 111, 52, 215, 1, 0, 0x61, 0x62, 0xC0, 2, 0, 0] [0, 0, 0, 0, 0])
     = Some \<lparr>in_ptr = 16, in_remain = 4, outb = [0x61, 0x62, 0, 0, 0], out_pos = 2,
             trace = [Wr 0, Wr 1]\<rparr> \<and>
   at_match [0x50, 0x5A, 0x4E, 0x5A, 5, 0, 0, 0, 148, 111, 52, 215, 1, 0, 0x61, 0x62, 0xC0, 2, 0, 0] (hdr_size [0x50, 0x5A, 0x4E, 0x5A, 5, 0, 0, 0, 148, 111, 52, 215, 1, 0, 0x61, 0x62, 0xC0, 2, 0, 0])
     \<lparr>in_ptr = 16, in_remain = 4, outb = [0x61, 0x62, 0, 0, 0], out_pos = 2,
      trace = [Wr 0, Wr 1]\<rparr> \<and>
   match_distance [0x50, 0x5A, 0x4E, 0x5A, 5, 0, 0, 0, 148, 111, 52, 215, 1, 0, 0x61, 0x62, 0xC0, 2, 0, 0] 16 \<le> 2 \<and> 2 + match_length [0x50, 0x5A, 0x4E, 0x5A, 5, 0, 0, 0, 148, 111, 52, 215, 1, 0, 0x61, 0x62, 0xC0, 2, 0, 0] 16 \<le> hdr_size [0x50, 0x5A, 0x4E, 0x5A, 5, 0, 0, 0, 148, 111, 52, 215, 1, 0, 0x61, 0x62, 0xC0, 2, 0, 0] \<and>
   dec_run [0x50, 0x5A, 0x4E, 0x5A, 5, 0, 0, 0, 148, 111, 52, 215, 1, 0, 0x61, 0xC0, 2, 0, 0] (hdr_size [0x50, 0x5A, 0x4E, 0x5A, 5, 0, 0, 0, 148, 111, 52, 215, 1, 0, 0x61, 0xC0, 2, 0, 0]) (Suc 0) (dec_start [0x50, 0x5A, 0x4E, 0x5A, 5, 0, 0, 0, 148, 111, 52, 215, 1, 0, 0x61, 0xC0, 2, 0, 0] [0, 0, 0, 0, 0])
     = Some \<lparr>in_ptr = 15, in_remain = 4, outb = [0x61, 0, 0, 0, 0], out_pos = 1,
             trace = [Wr 0]\<rparr> \<and>
   at_match [0x50, 0x5A, 0x4E, 0x5A, 5, 0, 0, 0, 148, 111, 52, 215, 1, 0, 0x61, 0xC0, 2, 0, 0] (hdr_size [0x50, 0x5A, 0x4E, 0x5A, 5, 0, 0, 0, 148, 111, 52, 215, 1, 0, 0x61, 0xC0, 2, 0, 0])
     \<lparr>in_ptr = 15, in_remain = 4, outb = [0x61, 0, 0, 0, 0], out_pos = 1, trace = [Wr 0]\<rparr> \<and>
   match_distance [0x50, 0x5A, 0x4E, 0x5A, 5, 0, 0, 0, 148, 111, 52, 215, 1, 0, 0x61, 0xC0, 2, 0, 0] 15 > 1 \<and>
   fst (nanozip_decompress [0x50, 0x5A, 0x4E, 0x5A, 5, 0, 0, 0, 148, 111, 52, 215, 1, 0, 0x61, 0xC0, 2, 0, 0] [0, 0, 0, 0, 0]) = 0"
proof -
  let ?s = "\<lparr>in_ptr = 16, in_remain = 4, outb = [0x61, 0x62, 0, 0, 0], out_pos = 2,
             trace = [Wr 0, Wr 1]\<rparr>"
  let ?z = "\<lparr>in_ptr = 15, in_remain = 4, outb = [0x61, 0, 0, 0, 0], out_pos = 1, trace = [Wr 0]\<rparr>"
  have n: "fst (nanozip_decompress [0x50, 0x5A, 0x4E, 0x5A, 5, 0, 0, 0, 148, 111, 52, 215, 1, 0, 0x61, 0x62, 0xC0, 2, 0, 0] [0, 0, 0, 0, 0]) \<noteq> 0"
    by (simp add: dec_eval crc_eval)
  have r: "dec_run [0x50, 0x5A, 0x4E, 0x5A, 5, 0, 0, 0, 148, 111, 52, 215, 1, 0, 0x61, 0x62, 0xC0, 2, 0, 0] (hdr_size [0x50, 0x5A, 0x4E, 0x5A, 5, 0, 0, 0, 148, 111, 52, 215, 1, 0, 0x61, 0x62, 0xC0, 2, 0, 0]) (Suc (Suc 0)) (dec_start [0x50, 0x5A, 0x4E, 0x5A, 5, 0, 0, 0, 148, 111, 52, 215, 1, 0, 0x61, 0x62, 0xC0, 2, 0, 0] [0, 0, 0, 0, 0]) = Some ?s"
    by (simp add: run_eval)
  have m: "at_match [0x50, 0x5A, 0x4E, 0x5A, 5, 0, 0, 0, 148, 111, 52, 215, 1, 0, 0x61, 0x62, 0xC0, 2, 0, 0] (hdr_size [0x50, 0x5A, 0x4E, 0x5A, 5, 0, 0, 0, 148, 111, 52, 215, 1, 0, 0x61, 0x62, 0xC0, 2, 0, 0]) ?s"
    by (simp add: run_eval)
  have b: "match_distance [0x50, 0x5A, 0x4E, 0x5A, 5, 0, 0, 0, 148, 111, 52, 215, 1, 0, 0x61, 0x62, 0xC0, 2, 0, 0] 16 \<le> 2 \<and> 2 + match_length [0x50, 0x5A, 0x4E, 0x5A, 5, 0, 0, 0, 148, 111, 52, 215, 1, 0, 0x61, 0x62, 0xC0, 2, 0, 0] 16 \<le> hdr_size [0x50, 0x5A, 0x4E, 0x5A, 5, 0, 0, 0, 148, 111, 52, 215, 1, 0, 0x61, 0x62, 0xC0, 2, 0, 0]"
    using match_bounds [of "[0x50, 0x5A, 0x4E, 0x5A, 5, 0, 0, 0, 148, 111, 52, 215, 1, 0, 0x61, 0x62, 0xC0, 2, 0, 0]" "[0, 0, 0, 0, 0]" "Suc (Suc 0)" ?s] n r m by simp
  have r2: "dec_run [0x50, 0x5A, 0x4E, 0x5A, 5, 0, 0, 0, 148, 111, 52, 215, 1, 0, 0x61, 0xC0, 2, 0, 0] (hdr_size [0x50, 0x5A, 0x4E, 0x5A, 5, 0, 0, 0, 148, 111, 52, 215, 1, 0, 0x61, 0xC0, 2, 0, 0]) (Suc 0) (dec_start [0x50, 0x5A, 0x4E, 0x5A, 5, 0, 0, 0, 148, 111, 52, 215, 1, 0, 0x61, 0xC0, 2, 0, 0] [0, 0, 0, 0, 0]) = Some ?z"
    by (simp add: run_eval)
  have m2: "at_match [0x50, 0x5A, 0x4E, 0x5A, 5, 0, 0, 0, 148, 111, 52, 215, 1, 0, 0x61, 0xC0, 2, 0, 0] (hdr_size [0x50, 0x5A, 0x4E, 0x5A, 5, 0, 0, 0, 148, 111, 52, 215, 1, 0, 0x61, 0xC0, 2, 0, 0]) ?z"
    by (simp add: run_eval)
  have d2: "match_distance [0x50, 0x5A, 0x4E, 0x5A, 5, 0, 0, 0, 148, 111, 52, 215, 1, 0, 0x61, 0xC0, 2, 0, 0] 15 > 1"
    by (simp add: run_eval)
  have z: "fst (nanozip_decompress [0x50, 0x5A, 0x4E, 0x5A, 5, 0, 0, 0, 148, 111, 52, 215, 1, 0, 0x61, 0xC0, 2, 0, 0] [0, 0, 0, 0, 0]) = 0"
    using match_bounds [of "[0x50, 0x5A, 0x4E, 0x5A, 5, 0, 0, 0, 148, 111, 52, 215, 1, 0, 0x61, 0xC0, 2, 0, 0]" "[0, 0, 0, 0, 0]" "Suc 0" ?z] r2 m2 d2 by simp
  show ?thesis using n r m b r2 m2 d2 z by blast
qed

text \<open>
  The claim as stated asks for distances of at most the header's window size.  The stream
  below declares a window of 1, holds a match of distance 2, and decodes to five bytes.
\<close>

theorem match_bounds_counterexample:
  "fst (nanozip_decompress [0x50, 0x5A, 0x4E, 0x5A, 5, 0, 0, 0, 148, 111, 52, 215, 1, 0, 0x61, 0x62, 0xC0, 2, 0, 0] [0, 0, 0, 0, 0]) = 5 \<and>
   dec_run [0x50, 0x5A, 0x4E, 0x5A, 5, 0, 0, 0, 148, 111, 52, 215, 1, 0, 0x61, 0x62, 0xC0, 2, 0, 0] (hdr_size [0x50, 0x5A, 0x4E, 0x5A, 5, 0, 0, 0, 148, 111, 52, 215, 1, 0, 0x61, 0x62, 0xC0, 2, 0, 0]) (Suc (Suc 0)) (dec_start [0x50, 0x5A, 0x4E, 0x5A, 5, 0, 0, 0, 148, 111, 52, 215, 1, 0, 0x61, 0x62, 0xC0, 2, 0, 0] [0, 0, 0, 0, 0])
     = Some \<lparr>in_ptr = 16, in_remain = 4, outb = [0x61, 0x62, 0, 0, 0], out_pos = 2,
             trace = [Wr 0, Wr 1]\<rparr> \<and>
   at_match [0x50, 0x5A, 0x4E, 0x5A, 5, 0, 0, 0, 148, 111, 52, 215, 1, 0, 0x61, 0x62, 0xC0, 2, 0, 0] (hdr_size [0x50, 0x5A, 0x4E, 0x5A, 5, 0, 0, 0, 148, 111, 52, 215, 1, 0, 0x61, 0x62, 0xC0, 2, 0, 0])
     \<lparr>in_ptr = 16, in_remain = 4, outb = [0x61, 0x62, 0, 0, 0], out_pos = 2,
      trace = [Wr 0, Wr 1]\<rparr> \<and>
   hdr_window [0x50, 0x5A, 0x4E, 0x5A, 5, 0, 0, 0, 148, 111, 52, 215, 1, 0, 0x61, 0x62, 0xC0, 2, 0, 0] = 1 \<and>
   match_distance [0x50, 0x5A, 0x4E, 0x5A, 5, 0, 0, 0, 148, 111, 52, 215, 1, 0, 0x61, 0x62, 0xC0, 2, 0, 0] 16 = 2 \<and>
   \<not> match_distance [0x50, 0x5A, 0x4E, 0x5A, 5, 0, 0, 0, 148, 111, 52, 215, 1, 0, 0x61, 0x62, 0xC0, 2, 0, 0] 16 \<le> min 2 (hdr_window [0x50, 0x5A, 0x4E, 0x5A, 5, 0, 0, 0, 148, 111, 52, 215, 1, 0, 0x61, 0x62, 0xC0, 2, 0, 0])"
proof -
  have n: "fst (nanozip_decompress [0x50, 0x5A, 0x4E, 0x5A, 5, 0, 0, 0, 148, 111, 52, 215, 1, 0, 0x61, 0x62, 0xC0, 2, 0, 0] [0, 0, 0, 0, 0]) = 5"
    by (simp add: dec_eval crc_eval)
  have r: "dec_run [0x50, 0x5A, 0x4E, 0x5A, 5, 0, 0, 0, 148, 111, 52, 215, 1, 0, 0x61, 0x62, 0xC0, 2, 0, 0] (hdr_size [0x50, 0x5A, 0x4E, 0x5A, 5, 0, 0, 0, 148, 111, 52, 215, 1, 0, 0x61, 0x62, 0xC0, 2, 0, 0]) (Suc (Suc 0)) (dec_start [0x50, 0x5A, 0x4E, 0x5A, 5, 0, 0, 0, 148, 111, 52, 215, 1, 0, 0x61, 0x62, 0xC0, 2, 0, 0] [0, 0, 0, 0, 0])
     = Some \<lparr>in_ptr = 16, in_remain = 4, outb = [0x61, 0x62, 0, 0, 0], out_pos = 2,
             trace = [Wr 0, Wr 1]\<rparr>"
    by (simp add: run_eval)
  have m: "at_match [0x50, 0x5A, 0x4E, 0x5A, 5, 0, 0, 0, 148, 111, 52, 215, 1, 0, 0x61, 0x62, 0xC0, 2, 0, 0] (hdr_size [0x50, 0x5A, 0x4E, 0x5A, 5, 0, 0, 0, 148, 111, 52, 215, 1, 0, 0x61, 0x62, 0xC0, 2, 0, 0])
     \<lparr>in_ptr = 16, in_remain = 4, outb = [0x61, 0x62, 0, 0, 0], out_pos = 2,
      trace = [Wr 0, Wr 1]\<rparr>"
    by (simp add: run_eval)
  have w: "hdr_window [0x50, 0x5A, 0x4E, 0x5A, 5, 0, 0, 0, 148, 111, 52, 215, 1, 0, 0x61, 0x62, 0xC0, 2, 0, 0] = 1" by (simp add: run_eval)
  have d: "match_distance [0x50, 0x5A, 0x4E, 0x5A, 5, 0, 0, 0, 148, 111, 52, 215, 1, 0, 0x61, 0x62, 0xC0, 2, 0, 0] 16 = 2" by (simp add: run_eval)
  show ?thesis using n r m w d by simp
qed

lemma copy_match_trace:
  "dist \<le> out_pos s \<Longrightarrow> out_pos s + n \<le> 2 ^ 64 \<Longrightarrow>
   trace (copy_match n dist s) =
     trace s @ concat (map (\<lambda>i. [Rd (out_pos s + i - dist), Wr (out_pos s + i)]) [0..<n])"
proof (induction n arbitrary: s)
  case 0
  then show ?case by simp
next
  case (Suc n)
  have i: "size_t_sub (out_pos s) dist = out_pos s - dist"
    using Suc.prems by (intro size_t_sub_le) auto
  let ?s1 = "put (outb s ! (out_pos s - dist)) (s\<lparr>trace := trace s @ [Rd (out_pos s - dist)]\<rparr>)"
  have u: "[0..<Suc n] = 0 # map Suc [0..<n]"
    by (simp only: upt_conv_Cons [of 0 "Suc n"] map_Suc_upt zero_less_Suc if_True)
  have "trace (copy_match n dist ?s1) =
     trace ?s1 @ concat (map (\<lambda>i. [Rd (out_pos ?s1 + i - dist), Wr (out_pos ?s1 + i)]) [0..<n])"
    using Suc.prems by (intro Suc.IH) auto
  then show ?case
    unfolding u by (simp add: i comp_def)
qed

lemma copy_match_trace_prefix: "\<exists>t. trace (copy_match n dist s) = trace s @ t"
proof (induction n arbitrary: s)
  case 0
  then show ?case by simp
next
  case (Suc n)
  let ?s1 = "put (outb s ! size_t_sub (out_pos s) dist)
            (s\<lparr>trace := trace s @ [Rd (size_t_sub (out_pos s) dist)]\<rparr>)"
  obtain t where "trace (copy_match n dist ?s1) = trace ?s1 @ t" using Suc.IH by blast
  then show ?case by simp
qed

lemma dec_body_trace_prefix: "\<exists>t. trace (snd (dec_body inp ds s)) = trace s @ t"
  using copy_match_trace_prefix [of "match_length inp (in_ptr s)" "match_distance inp (in_ptr s)" s]
  by (auto simp: dec_body_def Let_def)

lemma dec_loop_trace_prefix: "\<exists>t. trace (dec_loop inp ds s) = trace s @ t"
proof (induction inp ds s rule: dec_loop.induct)
  case (1 inp data_size s)
  show ?case
  proof (cases "in_remain s > 0 \<and> out_pos s < data_size")
    case False
    then show ?thesis by (subst dec_loop.simps) auto
  next
    case True
    obtain c s' where b: "dec_body inp data_size s = (c, s')" by (cases "dec_body inp data_size s")
    obtain t where t: "trace s' = trace s @ t"
      using dec_body_trace_prefix [of inp data_size s] b by auto
    show ?thesis
    proof (cases c)
      case True
      obtain t' where "trace (dec_loop inp data_size s') = trace s' @ t'"
        using 1 [OF \<open>in_remain s > 0 \<and> out_pos s < data_size\<close> b [symmetric]] True by blast
      then show ?thesis
        using t b True \<open>in_remain s > 0 \<and> out_pos s < data_size\<close>
        by (subst dec_loop.simps) simp
    next
      case False
      then show ?thesis
        using t b \<open>in_remain s > 0 \<and> out_pos s < data_size\<close>
        by (subst dec_loop.simps) simp
    qed
  qed
qed

lemma match_step:
  assumes "at_match inp ds s" and "dec_body inp ds s = (True, s')" and "ds \<le> 2 ^ 64"
  shows "1 \<le> match_distance inp (in_ptr s) \<and> match_distance inp (in_ptr s) \<le> out_pos s \<and>
     out_pos s + match_length inp (in_ptr s) \<le> ds \<and>
     trace s' = trace s @ concat (map (\<lambda>i. [Rd (out_pos s + i - match_distance inp (in_ptr s)),
                                              Wr (out_pos s + i)])
                                    [0..<match_length inp (in_ptr s)]) \<and>
     dec_loop inp ds s = dec_loop inp ds s'"
proof -
  let ?d = "match_distance inp (in_ptr s)" and ?l = "match_length inp (in_ptr s)"
  have c: "inp ! in_ptr s = 0xC0" "4 \<le> in_remain s" "out_pos s < ds"
    using assms(1) by (simp_all add: at_match_def)
  have g: "\<not> (?d = 0 \<or> ?d > out_pos s \<or> out_pos s + ?l > ds)"
    and s': "s' = (copy_match ?l ?d s)\<lparr>in_ptr := in_ptr s + 4, in_remain := in_remain s - 4\<rparr>"
    using assms(2) c by (auto simp: dec_body_def Let_def split: if_splits)
  have t: "trace (copy_match ?l ?d s) =
     trace s @ concat (map (\<lambda>i. [Rd (out_pos s + i - ?d), Wr (out_pos s + i)]) [0..<?l])"
    using g assms(3) by (intro copy_match_trace) auto
  have l: "dec_loop inp ds s = dec_loop inp ds s'"
    using c assms(2) by (subst dec_loop.simps) simp
  show ?thesis using g t l by (simp add: s')
qed

text \<open>
  C10.  On every input, the accesses of \<^verbatim>\<open>nanozip_decompress\<close> to the output buffer are in
  order: the writes go to the indices 0, 1, 2, ... in turn, each strictly below the declared
  size; every read (the backward reads of a match copy and the reads of the final checksum)
  is at an index strictly below the next write, so at a byte written in this run; the
  declared size is at most the capacity whenever the buffer is touched, so every access is
  inside the buffer, whose length does not change.  Moreover, once the header has passed
  validation, every match token that the loop applies, at whatever turn \<open>k\<close>, has a distance
  \<open>dist\<close> with \<open>1 \<le> dist \<le> out_pos\<close> and a copy that ends within the declared size, and the
  accesses of its copy are, for \<open>i = 0, ..., len - 1\<close> in turn, the read at
  \<open>out_pos + i - dist\<close> followed by the write at \<open>out_pos + i\<close>, \<open>out_pos\<close> being the output
  position when the token is read; these accesses are part of the trace of the run.
\<close>

theorem output_accesses_safe:
  "(case nanozip_decompress inp output of
      (ret, out', tr) \<Rightarrow>
         trace_ok (hdr_size inp) 0 tr \<and>
         (tr \<noteq> [] \<longrightarrow> hdr_size inp \<le> length output) \<and>
         list_all (\<lambda>a. idx a < length output) tr \<and>
         length out' = length output \<and>
         (14 \<le> length inp \<and> hdr_magic inp = NZ_MAGIC \<and> 1 \<le> hdr_window inp \<and>
          hdr_window inp \<le> 65535 \<and> hdr_size inp \<le> length output \<and>
          dec_run inp (hdr_size inp) k (dec_start inp output) = Some s \<and>
          at_match inp (hdr_size inp) s \<and> dec_body inp (hdr_size inp) s = (True, s')
          \<longrightarrow> 1 \<le> match_distance inp (in_ptr s) \<and> match_distance inp (in_ptr s) \<le> out_pos s \<and>
              out_pos s + match_length inp (in_ptr s) \<le> hdr_size inp \<and>
              trace s' = trace s @
                concat (map (\<lambda>i. [Rd (out_pos s + i - match_distance inp (in_ptr s)),
                                    Wr (out_pos s + i)])
                          [0..<match_length inp (in_ptr s)]) \<and>
              (\<exists>t. tr = trace s' @ t)))"
proof -
  let ?s = "dec_loop inp (hdr_size inp) (dec_start inp output)"
  have lim: "hdr_size inp \<le> 2 ^ 64" using hdr_size_less [of inp] by simp
  have "trace_inv (hdr_size inp) (dec_start inp output)" by (rule trace_inv_start)
  then have "trace_inv (hdr_size inp) ?s \<and> length (outb ?s) = length (outb (dec_start inp output))"
    using lim by (rule dec_loop_inv)
  then have inv: "trace_inv (hdr_size inp) ?s" and len: "length (outb ?s) = length output"
    by (simp_all add: dec_start_def)
  have ok1: "trace_ok (hdr_size inp) 0 (trace ?s)"
    using inv by (auto simp: trace_inv_def dest: spec [of _ "[]"])
  have ok2: "trace_ok (hdr_size inp) 0 (trace ?s @ map Rd [0..<hdr_size inp])"
    if "out_pos ?s = hdr_size inp"
    using inv that by (auto simp: trace_inv_def trace_ok_reads)
  obtain ret out' tr where r: "nanozip_decompress inp output = (ret, out', tr)"
    by (cases "nanozip_decompress inp output")
  have c: "tr = [] \<and> out' = output \<or>
      hdr_size inp \<le> length output \<and> out' = outb ?s \<and>
        (tr = trace ?s \<or> out_pos ?s = hdr_size inp \<and> tr = trace ?s @ map Rd [0..<hdr_size inp])"
    using r by (auto simp: nanozip_decompress_def Let_def split: if_splits)
  have t: "trace_ok (hdr_size inp) 0 tr"
    using c ok1 ok2 by auto
  have n: "hdr_size inp \<le> length output" if "tr \<noteq> []"
    using c that by auto
  have b: "list_all (\<lambda>a. idx a < length output) tr"
  proof (cases "tr = []")
    case True
    then show ?thesis by simp
  next
    case False
    then show ?thesis
      using trace_ok_bound [OF t] n by (fastforce simp: list_all_iff)
  qed
  have l: "length out' = length output"
    using c len by auto
  have m: "1 \<le> match_distance inp (in_ptr s) \<and> match_distance inp (in_ptr s) \<le> out_pos s \<and>
        out_pos s + match_length inp (in_ptr s) \<le> hdr_size inp \<and>
        trace s' = trace s @
          concat (map (\<lambda>i. [Rd (out_pos s + i - match_distance inp (in_ptr s)),
                              Wr (out_pos s + i)])
                    [0..<match_length inp (in_ptr s)]) \<and>
        (\<exists>t. tr = trace s' @ t)"
    if v: "14 \<le> length inp" "hdr_magic inp = NZ_MAGIC" "1 \<le> hdr_window inp"
        "hdr_window inp \<le> 65535" "hdr_size inp \<le> length output"
      and run: "dec_run inp (hdr_size inp) k (dec_start inp output) = Some s"
      and am: "at_match inp (hdr_size inp) s"
      and body: "dec_body inp (hdr_size inp) s = (True, s')"
  proof -
    note ms = match_step [OF am body lim]
    have "?s = dec_loop inp (hdr_size inp) s'"
      using dec_run_loop [OF run] ms by simp
    then obtain t1 where t1: "trace ?s = trace s' @ t1"
      using dec_loop_trace_prefix [of inp "hdr_size inp" s'] by auto
    have "tr = trace ?s \<or> tr = trace ?s @ map Rd [0..<hdr_size inp]"
      using r v by (auto simp: nanozip_decompress_def Let_def MAX_WINDOW_def split: if_splits)
    then have "\<exists>t. tr = trace s' @ t" using t1 by auto
    then show ?thesis using ms by simp
  qed
  show ?thesis
    unfolding r prod.case using t n b l m by blast
qed

theorem output_accesses_safe_witness:
  "nanozip_decompress [0x50, 0x5A, 0x4E, 0x5A, 5, 0, 0, 0, 148, 111, 52, 215, 1, 0, 0x61, 0x62, 0xC0, 2, 0, 0] [0, 0, 0, 0, 0] =
     (5, [0x61, 0x62, 0x61, 0x62, 0x61],
      [Wr 0, Wr 1, Rd 0, Wr 2, Rd 1, Wr 3, Rd 2, Wr 4, Rd 0, Rd 1, Rd 2, Rd 3, Rd 4]) \<and>
   trace_ok (hdr_size [0x50, 0x5A, 0x4E, 0x5A, 5, 0, 0, 0, 148, 111, 52, 215, 1, 0, 0x61, 0x62, 0xC0, 2, 0, 0]) 0
      [Wr 0, Wr 1, Rd 0, Wr 2, Rd 1, Wr 3, Rd 2, Wr 4, Rd 0, Rd 1, Rd 2, Rd 3, Rd 4] \<and>
   hdr_size [0x50, 0x5A, 0x4E, 0x5A, 5, 0, 0, 0, 148, 111, 52, 215, 1, 0, 0x61, 0x62, 0xC0, 2, 0, 0] \<le> length [0, 0, 0, 0, 0 :: byte] \<and>
   list_all (\<lambda>a. idx a < length [0, 0, 0, 0, 0 :: byte])
      [Wr 0, Wr 1, Rd 0, Wr 2, Rd 1, Wr 3, Rd 2, Wr 4, Rd 0, Rd 1, Rd 2, Rd 3, Rd 4] \<and>
   dec_run [0x50, 0x5A, 0x4E, 0x5A, 5, 0, 0, 0, 148, 111, 52, 215, 1, 0, 0x61, 0x62, 0xC0, 2, 0, 0] (hdr_size [0x50, 0x5A, 0x4E, 0x5A, 5, 0, 0, 0, 148, 111, 52, 215, 1, 0, 0x61, 0x62, 0xC0, 2, 0, 0]) (Suc (Suc 0)) (dec_start [0x50, 0x5A, 0x4E, 0x5A, 5, 0, 0, 0, 148, 111, 52, 215, 1, 0, 0x61, 0x62, 0xC0, 2, 0, 0] [0, 0, 0, 0, 0])
     = Some \<lparr>in_ptr = 16, in_remain = 4, outb = [0x61, 0x62, 0, 0, 0], out_pos = 2,
             trace = [Wr 0, Wr 1]\<rparr> \<and>
   at_match [0x50, 0x5A, 0x4E, 0x5A, 5, 0, 0, 0, 148, 111, 52, 215, 1, 0, 0x61, 0x62, 0xC0, 2, 0, 0] (hdr_size [0x50, 0x5A, 0x4E, 0x5A, 5, 0, 0, 0, 148, 111, 52, 215, 1, 0, 0x61, 0x62, 0xC0, 2, 0, 0])
     \<lparr>in_ptr = 16, in_remain = 4, outb = [0x61, 0x62, 0, 0, 0], out_pos = 2,
      trace = [Wr 0, Wr 1]\<rparr> \<and>
   dec_body [0x50, 0x5A, 0x4E, 0x5A, 5, 0, 0, 0, 148, 111, 52, 215, 1, 0, 0x61, 0x62, 0xC0, 2, 0, 0] (hdr_size [0x50, 0x5A, 0x4E, 0x5A, 5, 0, 0, 0, 148, 111, 52, 215, 1, 0, 0x61, 0x62, 0xC0, 2, 0, 0])
     \<lparr>in_ptr = 16, in_remain = 4, outb = [0x61, 0x62, 0, 0, 0], out_pos = 2,
      trace = [Wr 0, Wr 1]\<rparr>
     = (True, \<lparr>in_ptr = 20, in_remain = 0, outb = [0x61, 0x62, 0x61, 0x62, 0x61], out_pos = 5,
               trace = [Wr 0, Wr 1, Rd 0, Wr 2, Rd 1, Wr 3, Rd 2, Wr 4]\<rparr>) \<and>
   match_distance [0x50, 0x5A, 0x4E, 0x5A, 5, 0, 0, 0, 148, 111, 52, 215, 1, 0, 0x61, 0x62, 0xC0, 2, 0, 0] 16 = 2 \<and>
   match_length [0x50, 0x5A, 0x4E, 0x5A, 5, 0, 0, 0, 148, 111, 52, 215, 1, 0, 0x61, 0x62, 0xC0, 2, 0, 0] 16 = 3 \<and>
   [Wr 0, Wr 1, Rd 0, Wr 2, Rd 1, Wr 3, Rd 2, Wr 4] =
     [Wr 0, Wr 1] @ concat (map (\<lambda>i. [Rd (2 + i - match_distance [0x50, 0x5A, 0x4E, 0x5A, 5, 0, 0, 0, 148, 111, 52, 215, 1, 0, 0x61, 0x62, 0xC0, 2, 0, 0] 16), Wr (2 + i)])
        [0..<match_length [0x50, 0x5A, 0x4E, 0x5A, 5, 0, 0, 0, 148, 111, 52, 215, 1, 0, 0x61, 0x62, 0xC0, 2, 0, 0] 16])"
proof -
  let ?X = "[0x50, 0x5A, 0x4E, 0x5A, 5, 0, 0, 0, 148, 111, 52, 215, 1, 0, 0x61, 0x62, 0xC0, 2, 0, 0] :: byte list"
  let ?s = "\<lparr>in_ptr = 16, in_remain = 4, outb = [0x61, 0x62, 0, 0, 0], out_pos = 2,
             trace = [Wr 0, Wr 1]\<rparr>"
  let ?s' = "\<lparr>in_ptr = 20, in_remain = 0, outb = [0x61, 0x62, 0x61, 0x62, 0x61], out_pos = 5,
               trace = [Wr 0, Wr 1, Rd 0, Wr 2, Rd 1, Wr 3, Rd 2, Wr 4]\<rparr>"
  have e: "nanozip_decompress ?X [0, 0, 0, 0, 0] =
     (5, [0x61, 0x62, 0x61, 0x62, 0x61],
      [Wr 0, Wr 1, Rd 0, Wr 2, Rd 1, Wr 3, Rd 2, Wr 4, Rd 0, Rd 1, Rd 2, Rd 3, Rd 4])"
    by (simp add: dec_eval crc_eval)
  have v: "14 \<le> length ?X \<and> hdr_magic ?X = NZ_MAGIC \<and> 1 \<le> hdr_window ?X \<and>
          hdr_window ?X \<le> 65535 \<and> hdr_size ?X \<le> length [0, 0, 0, 0, 0 :: byte]"
    by (simp add: dec_eval)
  have r: "dec_run ?X (hdr_size ?X) (Suc (Suc 0)) (dec_start ?X [0, 0, 0, 0, 0]) = Some ?s"
    by (simp add: run_eval)
  have m: "at_match ?X (hdr_size ?X) ?s"
    by (simp add: run_eval)
  have b: "dec_body ?X (hdr_size ?X) ?s = (True, ?s')"
    by (simp add: run_eval)
  have d: "match_distance ?X 16 = 2" "match_length ?X 16 = 3"
    by (simp_all add: run_eval)
  show ?thesis
    using output_accesses_safe [of ?X "[0, 0, 0, 0, 0]" "Suc (Suc 0)" ?s ?s'] v r m b d
    unfolding e by simp
qed

subsection \<open>What the match finder returns\<close>

lemma scalar_loop_le:
  "len \<le> max_len \<Longrightarrow> len \<le> scalar_loop data pos cand max_len len \<and> scalar_loop data pos cand max_len len \<le> max_len"
proof (induction data pos cand max_len len rule: scalar_loop.induct)
  case (1 data pos cand max_len len)
  show ?case
  proof (cases "len < max_len \<and> data ! (pos + len) = data ! unat (cand + word_of_nat len)")
    case True
    then have "len + 1 \<le> scalar_loop data pos cand max_len (len + 1) \<and>
        scalar_loop data pos cand max_len (len + 1) \<le> max_len"
      using 1(1) by simp
    then show ?thesis using True by (subst (1 2) scalar_loop.simps) simp
  next
    case False
    then show ?thesis using 1(2) by (subst (1 2) scalar_loop.simps) auto
  qed
qed

lemma match_len_le: "match_len b data pos cand max_len \<le> max_len"
proof -
  have "let r = vec_loop b data pos cand max_len 0
    in 0 \<le> r \<and> r \<le> max_len \<and> (\<forall>i<r. data ! (pos + i) = data ! (unat cand + i))"
    by (rule vec_loop_sound) simp_all
  then have "vec_loop b data pos cand max_len 0 \<le> max_len" by (simp add: Let_def)
  then show ?thesis unfolding match_len_def by (rule scalar_loop_le [THEN conjunct2])
qed

lemma match_len_naive:
  assumes "unat cand + max_len \<le> 2 ^ 32"
  shows "match_len b data pos cand max_len = naive_match_len data pos (unat cand) max_len"
proof -
  have "let r = vec_loop b data pos cand max_len 0
    in 0 \<le> r \<and> r \<le> max_len \<and> (\<forall>i<r. data ! (pos + i) = data ! (unat cand + i))"
    by (rule vec_loop_sound) simp_all
  then show ?thesis
    unfolding match_len_def using assms by (intro scalar_loop_char) (simp_all add: Let_def)
qed

lemma naive_match_len_agree:
  "i < naive_match_len data pos cand max_len \<Longrightarrow> data ! (pos + i) = data ! (cand + i)"
  unfolding naive_match_len_def by (rule takeWhile_upt_prefix)

lemma walk_Suc:
  "walk b data pos endp st (Suc n) cand best_len best_cand =
     (if cand = 0 then (best_len, best_cand)
      else if unat cand = pos then
        walk b data pos endp st n (chain st (unat cand mod window_size st)) best_len best_cand
      else if (pos + 2 ^ 64 - unat cand) mod 2 ^ 64 > window_size st then (best_len, best_cand)
      else if match_len b data pos cand (if endp - pos < MAX_MATCH then endp - pos else MAX_MATCH) > best_len
            \<and> match_len b data pos cand (if endp - pos < MAX_MATCH then endp - pos else MAX_MATCH) \<ge> MIN_MATCH
      then (if match_len b data pos cand (if endp - pos < MAX_MATCH then endp - pos else MAX_MATCH) \<ge> MAX_MATCH
            then (match_len b data pos cand (if endp - pos < MAX_MATCH then endp - pos else MAX_MATCH), cand)
            else walk b data pos endp st n (chain st (unat cand mod window_size st))
                   (match_len b data pos cand (if endp - pos < MAX_MATCH then endp - pos else MAX_MATCH)) cand)
      else walk b data pos endp st n (chain st (unat cand mod window_size st)) best_len best_cand)"
  by (simp only: walk.simps Let_def)

lemma walk_le:
  "best_len \<le> min (endp - pos) 258 \<Longrightarrow>
   fst (walk b data pos endp st n cand best_len best_cand) \<le> min (endp - pos) 258"
proof (induction n arbitrary: cand best_len best_cand)
  case 0
  then show ?case by simp
next
  case (Suc n)
  define ml where "ml = match_len b data pos cand (if endp - pos < MAX_MATCH then endp - pos else MAX_MATCH)"
  define B where "B = min (endp - pos) 258"
  have m: "ml \<le> B"
    unfolding ml_def B_def
    using match_len_le [of b data pos cand "if endp - pos < MAX_MATCH then endp - pos else MAX_MATCH"]
    by (auto simp: MAX_MATCH_def)
  have p: "best_len \<le> B" using Suc.prems by (simp add: B_def)
  have IH1: "fst (walk b data pos endp st n c' best_len best_cand) \<le> B" for c'
    unfolding B_def using Suc.prems by (rule Suc.IH)
  have IH2: "fst (walk b data pos endp st n c' ml cand) \<le> B" for c'
    using m unfolding B_def by (rule Suc.IH)
  have "fst (walk b data pos endp st (Suc n) cand best_len best_cand) \<le> B"
    unfolding walk_Suc ml_def [symmetric] using p m IH1 IH2 by simp
  then show ?case by (simp only: B_def)
qed

lemma size_t_sub_far:
  assumes "pos < c" and "c < 2 ^ 32"
  shows "(pos + 2 ^ 64 - c) mod 2 ^ 64 > (65535 :: nat)"
proof -
  have "pos + 2 ^ 64 - c < 2 ^ 64" using assms by simp
  then have "(pos + 2 ^ 64 - c) mod 2 ^ 64 = pos + 2 ^ 64 - c" by (rule mod_less)
  moreover have "pos + 2 ^ 64 - c > 65535" using assms by simp
  ultimately show ?thesis by (simp only:)
qed

lemma size_t_sub_near:
  assumes "c \<le> pos" and "pos \<le> 2 ^ 32"
  shows "(pos + 2 ^ 64 - c) mod 2 ^ 64 = (pos - c :: nat)"
proof -
  have "pos + 2 ^ 64 - c = (pos - c) + 2 ^ 64" using assms by simp
  moreover have "pos - c < 2 ^ 64" using assms by simp
  ultimately show ?thesis by (simp only: mod_add_self2 mod_less)
qed

lemma walk_valid:
  assumes "endp \<le> 2 ^ 32" and "pos \<le> endp" and "window_size st \<le> 65535"
    and "best_len = 0 \<or>
         (3 \<le> best_len \<and> unat best_cand < pos \<and> pos - unat best_cand \<le> window_size st \<and>
          (\<forall>i<best_len. data ! (pos + i) = data ! (unat best_cand + i)))"
    and "walk b data pos endp st n cand best_len best_cand = (l, c)"
  shows "l = 0 \<or>
         (3 \<le> l \<and> unat c < pos \<and> pos - unat c \<le> window_size st \<and>
          (\<forall>i<l. data ! (pos + i) = data ! (unat c + i)))"
  using assms(4,5)
proof (induction n arbitrary: cand best_len best_cand)
  case 0
  then show ?case by simp
next
  case (Suc n)
  define nxt where "nxt = chain st (unat cand mod window_size st)"
  define mxl where "mxl = (if endp - pos < MAX_MATCH then endp - pos else MAX_MATCH)"
  define len where "len = match_len b data pos cand mxl"
  define far where "far \<longleftrightarrow> (pos + 2 ^ 64 - unat cand) mod 2 ^ 64 > window_size st"
  have w: "(if cand = 0 then (best_len, best_cand)
      else if unat cand = pos then walk b data pos endp st n nxt best_len best_cand
      else if far then (best_len, best_cand)
      else if len > best_len \<and> len \<ge> MIN_MATCH
      then (if len \<ge> MAX_MATCH then (len, cand) else walk b data pos endp st n nxt len cand)
      else walk b data pos endp st n nxt best_len best_cand) = (l, c)"
    using Suc.prems(2) unfolding walk_Suc nxt_def mxl_def len_def far_def .
  note old = Suc.prems(1)
  show ?case
  proof (cases "cand = 0")
    case True
    with w have "(best_len, best_cand) = (l, c)" by simp
    then show ?thesis using old by simp
  next
    case nz: False
    show ?thesis
    proof (cases "unat cand = pos")
      case True
      with w nz have "walk b data pos endp st n nxt best_len best_cand = (l, c)" by simp
      with old show ?thesis by (rule Suc.IH)
    next
      case ne: False
      show ?thesis
      proof (cases far)
        case True
        with w nz ne have "(best_len, best_cand) = (l, c)" by simp
        then show ?thesis using old by simp
      next
        case near: False
        have c32: "unat cand < 2 ^ 32" using unsigned_less [of cand] by simp
        have p32: "pos \<le> 2 ^ 32" using assms(1,2) by simp
        have lt: "unat cand < pos"
        proof (rule ccontr)
          assume "\<not> unat cand < pos"
          then have "pos < unat cand" using ne by simp
          then have "(pos + 2 ^ 64 - unat cand) mod 2 ^ 64 > 65535"
            using c32 by (rule size_t_sub_far)
          then show False using near assms(3) unfolding far_def by simp
        qed
        have "(pos + 2 ^ 64 - unat cand) mod 2 ^ 64 = pos - unat cand"
          using lt p32 by (intro size_t_sub_near) simp_all
        then have dist: "pos - unat cand \<le> window_size st"
          using near unfolding far_def by simp
        have nowrap: "unat cand + mxl \<le> 2 ^ 32"
          using lt assms(1,2) by (auto simp: mxl_def MAX_MATCH_def)
        have leq: "len = naive_match_len data pos (unat cand) mxl"
          unfolding len_def using nowrap by (rule match_len_naive)
        have agree: "\<forall>i<len. data ! (pos + i) = data ! (unat cand + i)"
          unfolding leq using naive_match_len_agree by blast
        show ?thesis
        proof (cases "len > best_len \<and> len \<ge> MIN_MATCH")
          case better: True
          have v: "len = 0 \<or> (3 \<le> len \<and> unat cand < pos \<and> pos - unat cand \<le> window_size st \<and>
                (\<forall>i<len. data ! (pos + i) = data ! (unat cand + i)))"
            using better lt dist agree by (simp add: MIN_MATCH_def)
          show ?thesis
          proof (cases "len \<ge> MAX_MATCH")
            case True
            with w nz ne near better have "(len, cand) = (l, c)" by simp
            then show ?thesis using v by simp
          next
            case False
            with w nz ne near better have "walk b data pos endp st n nxt len cand = (l, c)" by simp
            with v show ?thesis by (rule Suc.IH)
          qed
        next
          case False
          with w nz ne near have "walk b data pos endp st n nxt best_len best_cand = (l, c)"
            by simp
          with old show ?thesis by (rule Suc.IH)
        qed
      qed
    qed
  qed
qed

lemma find_match_le:
  assumes "find_match b data pos endp st = (l, c, st')"
  shows "l \<le> min (endp - pos) 258 \<and> window_size st' = window_size st"
proof (cases "pos + MIN_MATCH > endp")
  case True
  then show ?thesis using assms by (simp add: find_match_def)
next
  case False
  define st1 where "st1 = st\<lparr>head := (head st)(unat (hash3 data pos) := word_of_nat pos)\<rparr>"
  define r where "r = walk b data pos endp st1 MATCH_SEARCH_LIMIT (head st (unat (hash3 data pos))) 0 0"
  have e: "find_match b data pos endp st =
      (fst r, snd r, st1\<lparr>chain := (chain st1)(pos mod window_size st1 := head st (unat (hash3 data pos)))\<rparr>)"
    using False by (simp add: find_match_def Let_def st1_def r_def split: prod.splits)
  have "fst r \<le> min (endp - pos) 258"
    unfolding r_def by (rule walk_le) simp
  then show ?thesis using assms e by (auto simp: st1_def)
qed

lemma find_match_valid:
  assumes "endp \<le> 2 ^ 32" and "pos \<le> endp" and "window_size st \<le> 65535"
    and "find_match b data pos endp st = (l, c, st')"
  shows "l = 0 \<or>
         (3 \<le> l \<and> unat c < pos \<and> pos - unat c \<le> 65535 \<and>
          (\<forall>i<l. data ! (pos + i) = data ! (unat c + i)))"
proof (cases "pos + MIN_MATCH > endp")
  case True
  then show ?thesis using assms by (simp add: find_match_def)
next
  case False
  define st1 where "st1 = st\<lparr>head := (head st)(unat (hash3 data pos) := word_of_nat pos)\<rparr>"
  define r where "r = walk b data pos endp st1 MATCH_SEARCH_LIMIT (head st (unat (hash3 data pos))) 0 0"
  have e: "find_match b data pos endp st =
      (fst r, snd r, st1\<lparr>chain := (chain st1)(pos mod window_size st1 := head st (unat (hash3 data pos)))\<rparr>)"
    using False by (simp add: find_match_def Let_def st1_def r_def split: prod.splits)
  have w: "window_size st1 \<le> 65535" using assms(3) by (simp add: st1_def)
  have r: "walk b data pos endp st1 MATCH_SEARCH_LIMIT (head st (unat (hash3 data pos))) 0 0 = (fst r, snd r)"
    by (simp add: r_def)
  have "fst r = 0 \<or>
         (3 \<le> fst r \<and> unat (snd r) < pos \<and> pos - unat (snd r) \<le> window_size st1 \<and>
          (\<forall>i<fst r. data ! (pos + i) = data ! (unat (snd r) + i)))"
    using assms(1,2) w _ r by (rule walk_valid) simp
  then show ?thesis using assms(4) e w by auto
qed

lemma ucast_low_byte: "(ucast (d :: u32) :: byte) = word_of_nat (unat d mod 256)"
  by (simp add: word_unat_eq_iff unsigned_ucast_eq unat_of_nat take_bit_eq_mod)

lemma ucast_high_byte: "(ucast (drop_bit 8 (d :: u32)) :: byte) = word_of_nat (unat d div 256)"
  by (simp add: word_unat_eq_iff unsigned_ucast_eq unat_of_nat unat_drop_bit_eq take_bit_eq_mod
        drop_bit_eq_div unat_div)

lemma unat_pos_minus:
  assumes "unat c < pos" and "pos < 2 ^ 32"
  shows "unat (word_of_nat pos - c :: u32) = pos - unat c"
proof -
  have u: "unat (word_of_nat pos :: u32) = pos" using assms(2) by (simp add: unat_of_nat)
  have "c \<le> word_of_nat pos" using assms(1) u by (simp add: word_le_nat_alt)
  then show ?thesis using u by (simp add: unat_sub)
qed

lemma comp_body_step:
  assumes "comp_body b input out_size s = (True, s')"
    and "cpos s < length input" and "length input < 2 ^ 32" and "window_size (cst s) \<le> 65535"
  shows "\<exists>tok. cout s' = cout s @ token_bytes tok \<and> token_ok tok \<and>
           covers input (cpos s) [tok] = Some (cpos s') \<and>
           window_size (cst s') \<le> 65535 \<and> cpos s' \<le> length input"
proof -
  obtain l c st' where f: "find_match b input (cpos s) (length input) (cst s) = (l, c, st')"
    by (cases "find_match b input (cpos s) (length input) (cst s)")
  have w: "window_size st' \<le> 65535" and lb: "l \<le> min (length input - cpos s) 258"
    using find_match_le [OF f] assms(4) by simp_all
  have v: "l = 0 \<or>
         (3 \<le> l \<and> unat c < cpos s \<and> cpos s - unat c \<le> 65535 \<and>
          (\<forall>i<l. input ! (cpos s + i) = input ! (unat c + i)))"
    using _ _ assms(4) f by (rule find_match_valid) (use assms(2,3) in simp_all)
  show ?thesis
  proof (cases "l \<ge> MIN_MATCH")
    case True
    then have l3: "3 \<le> l" by (simp add: MIN_MATCH_def)
    with v have c: "unat c < cpos s" and d: "cpos s - unat c \<le> 65535"
      and a: "\<forall>i<l. input ! (cpos s + i) = input ! (unat c + i)" by auto
    define dist where "dist = (word_of_nat (cpos s) - c :: u32)"
    have ud: "unat dist = cpos s - unat c"
      unfolding dist_def using c assms(2,3) by (intro unat_pos_minus) simp_all
    have s': "s' = \<lparr>cpos = cpos s + l,
                    cout = cout s @ [0xC0, ucast dist, ucast (drop_bit 8 dist), word_of_nat (l - MIN_MATCH)],
                    cst = st'\<rparr>"
      using assms(1) f True by (auto simp: comp_body_def Let_def dist_def split: if_splits)
    have lo: "ucast dist = (word_of_nat ((cpos s - unat c) mod 256) :: byte)"
      using ucast_low_byte [of dist] by (simp only: ud)
    have hi: "ucast (drop_bit 8 dist) = (word_of_nat ((cpos s - unat c) div 256) :: byte)"
      using ucast_high_byte [of dist] by (simp only: ud)
    have tb: "token_bytes (Match (cpos s - unat c) l)
        = [0xC0, ucast dist, ucast (drop_bit 8 dist), word_of_nat (l - MIN_MATCH)]"
      by (simp only: token_bytes.simps lo hi MIN_MATCH_def)
    have cov: "list_all (\<lambda>i. input ! (cpos s + i) = input ! (cpos s + i - (cpos s - unat c))) [0..<l]"
      using a c by (simp add: list_all_iff add.commute)
    have "cout s' = cout s @ token_bytes (Match (cpos s - unat c) l)"
      unfolding tb by (simp add: s')
    moreover have "token_ok (Match (cpos s - unat c) l)"
      using l3 lb c d by simp
    moreover have le: "cpos s + l \<le> length input"
    proof -
      have "l \<le> length input - cpos s" using lb by simp
      then show ?thesis using assms(2) by arith
    qed
    moreover have "covers input (cpos s) [Match (cpos s - unat c) l] = Some (cpos s')"
      using cov le by (simp add: s')
    moreover have "cpos s' \<le> length input" using le by (simp add: s')
    ultimately show ?thesis using w by (intro exI [of _ "Match (cpos s - unat c) l"]) (simp add: s')
  next
    case False
    show ?thesis
    proof (cases "input ! cpos s = 0xBF \<or> input ! cpos s \<ge> 0xC0")
      case True
      then have s': "s' = \<lparr>cpos = cpos s + 1, cout = cout s @ [0xBF, input ! cpos s], cst = st'\<rparr>"
        using assms(1) f False by (auto simp: comp_body_def Let_def split: if_splits)
      have "input ! cpos s \<ge> 0xBF"
      proof (cases "input ! cpos s = 0xBF")
        case True
        then show ?thesis by simp
      next
        case False
        with True have "(0xC0 :: byte) \<le> input ! cpos s" by simp
        moreover have "(0xBF :: byte) \<le> 0xC0" by simp
        ultimately show ?thesis by (rule order_trans [rotated])
      qed
      then show ?thesis using w assms(2)
        by (intro exI [of _ "Escaped (input ! cpos s)"]) (simp add: s')
    next
      case lit: False
      then have s': "s' = \<lparr>cpos = cpos s + 1, cout = cout s @ [input ! cpos s], cst = st'\<rparr>"
        using assms(1) f False by (auto simp: comp_body_def Let_def split: if_splits)
      have "input ! cpos s \<le> 0xBE"
      proof -
        have "input ! cpos s < 0xC0" and "input ! cpos s \<noteq> 0xBF" using lit by auto
        then have "unat (input ! cpos s) < 192 \<and> unat (input ! cpos s) \<noteq> 191"
          by (simp add: word_less_nat_alt word_unat_eq_iff)
        then have "unat (input ! cpos s) \<le> 190" by simp
        then show ?thesis by (simp add: word_le_nat_alt)
      qed
      then show ?thesis using w assms(2)
        by (intro exI [of _ "Literal (input ! cpos s)"]) (simp add: s')
    qed
  qed
qed

subsection \<open>From the encoder to tokens, from tokens to the decoder\<close>

lemma covers_append:
  "covers input p (ts1 @ ts2) =
     (case covers input p ts1 of None \<Rightarrow> None | Some q \<Rightarrow> covers input q ts2)"
  by (induction input p ts1 rule: covers.induct) simp_all

lemma comp_body_break:
  "comp_body b input out_size s = (False, s') \<Longrightarrow> cout s' = cout s \<and> cpos s' = cpos s"
  by (auto simp: comp_body_def Let_def split: prod.splits if_splits)

lemma comp_loop_tokens:
  "length input < 2 ^ 32 \<Longrightarrow> window_size (cst s) \<le> 65535 \<Longrightarrow> cpos s \<le> length input \<Longrightarrow>
    \<exists>ts. cout (comp_loop b input out_size s) = cout s @ concat (map token_bytes ts) \<and>
         list_all token_ok ts \<and>
         covers input (cpos s) ts = Some (cpos (comp_loop b input out_size s))"
proof (induction b input out_size s rule: comp_loop.induct)
  case (1 b input out_size s)
  show ?case
  proof (cases "cpos s < length input")
    case False
    then have "comp_loop b input out_size s = s" by (subst comp_loop.simps) simp
    then show ?thesis by (intro exI [of _ "[]"]) simp
  next
    case True
    obtain c s' where e: "comp_body b input out_size s = (c, s')"
      by (cases "comp_body b input out_size s")
    show ?thesis
    proof (cases c)
      case False
      then have "comp_loop b input out_size s = s'"
        using e True by (subst comp_loop.simps) simp
      moreover have "cout s' = cout s \<and> cpos s' = cpos s"
        using e False by (intro comp_body_break) simp
      ultimately show ?thesis by (intro exI [of _ "[]"]) simp
    next
      case cont: True
      have l: "comp_loop b input out_size s = comp_loop b input out_size s'"
        using e True cont by (subst comp_loop.simps) simp
      obtain tok where t: "cout s' = cout s @ token_bytes tok" "token_ok tok"
          "covers input (cpos s) [tok] = Some (cpos s')"
          "window_size (cst s') \<le> 65535" "cpos s' \<le> length input"
        using comp_body_step [of b input out_size s s'] e cont True 1(2,3) by auto
      obtain ts where ts: "cout (comp_loop b input out_size s') = cout s' @ concat (map token_bytes ts)"
          "list_all token_ok ts"
          "covers input (cpos s') ts = Some (cpos (comp_loop b input out_size s'))"
        using 1(1) [OF True e [symmetric] _ 1(2) t(4,5)] cont by auto
      have "covers input (cpos s) (tok # ts) = Some (cpos (comp_loop b input out_size s'))"
        using covers_append [of input "cpos s" "[tok]" ts] t(3) ts(3) by simp
      then show ?thesis
        unfolding l using t ts by (intro exI [of _ "tok # ts"]) simp
    qed
  qed
qed

lemma covers_mono: "covers input p ts = Some q \<Longrightarrow> p \<le> q"
proof (induction input p ts rule: covers.induct)
  case (1 input pos)
  then show ?case by simp
next
  case (2 input pos v ts)
  then show ?case by (fastforce split: if_splits)
next
  case (3 input pos v ts)
  then show ?case by (fastforce split: if_splits)
next
  case (4 input pos dist len ts)
  then show ?case by (fastforce split: if_splits)
qed

lemma dec_body_literal:
  "inp ! in_ptr d = v \<Longrightarrow> v \<noteq> 0xBF \<Longrightarrow> v \<noteq> 0xC0 \<Longrightarrow>
   dec_body inp ds d = (True, (put v d)\<lparr>in_ptr := in_ptr d + 1, in_remain := in_remain d - 1\<rparr>)"
  by (simp add: dec_body_def)

lemma dec_body_escape:
  "inp ! in_ptr d = 0xBF \<Longrightarrow> 2 \<le> in_remain d \<Longrightarrow>
   dec_body inp ds d =
     (True, (put (inp ! (in_ptr d + 1)) d)\<lparr>in_ptr := in_ptr d + 2, in_remain := in_remain d - 2\<rparr>)"
  by (simp add: dec_body_def Let_def put_def)

lemma dec_body_match:
  "inp ! in_ptr d = 0xC0 \<Longrightarrow> 4 \<le> in_remain d \<Longrightarrow> match_length inp (in_ptr d) \<le> 258 \<Longrightarrow>
   1 \<le> match_distance inp (in_ptr d) \<Longrightarrow> match_distance inp (in_ptr d) \<le> out_pos d \<Longrightarrow>
   out_pos d + match_length inp (in_ptr d) \<le> ds \<Longrightarrow>
   dec_body inp ds d =
     (True, (copy_match (match_length inp (in_ptr d)) (match_distance inp (in_ptr d)) d)
              \<lparr>in_ptr := in_ptr d + 4, in_remain := in_remain d - 4\<rparr>)"
  by (simp add: dec_body_def Let_def MAX_MATCH_def)

lemma take_put:
  assumes "take p (outb d) = take p input" and "out_pos d = p" and "p < length input"
    and "length input \<le> length (outb d)" and "v = input ! p"
  shows "take (Suc p) (outb (put v d)) = take (Suc p) input"
proof -
  have "p < length (outb d)" using assms(3,4) by simp
  then have "take (Suc p) ((outb d)[p := v]) = take p (outb d) @ [v]"
    by (simp add: take_Suc_conv_app_nth)
  moreover have "take (Suc p) input = take p input @ [input ! p]"
    using assms(3) by (rule take_Suc_conv_app_nth)
  ultimately show ?thesis using assms(1,2,5) by simp
qed

lemma copy_match_correct:
  "take p (outb d) = take p input \<Longrightarrow> out_pos d = p \<Longrightarrow> 1 \<le> dist \<Longrightarrow> dist \<le> p \<Longrightarrow>
   p + n \<le> length input \<Longrightarrow> length input \<le> length (outb d) \<Longrightarrow>
   (\<forall>i<n. input ! (p + i) = input ! (p + i - dist)) \<Longrightarrow> length input \<le> 2 ^ 64 \<Longrightarrow>
   take (p + n) (outb (copy_match n dist d)) = take (p + n) input"
proof (induction n arbitrary: d p)
  case 0
  then show ?case by simp
next
  case (Suc n)
  have i: "size_t_sub (out_pos d) dist = out_pos d - dist"
    using Suc.prems by (intro size_t_sub_le) auto
  let ?d0 = "d\<lparr>trace := trace d @ [Rd (out_pos d - dist)]\<rparr>"
  let ?d1 = "put (outb d ! (out_pos d - dist)) ?d0"
  have rd: "outb d ! (p - dist) = input ! (p - dist)"
  proof -
    have "p - dist < p" using Suc.prems(3,4) by simp
    then have "take p (outb d) ! (p - dist) = outb d ! (p - dist)"
      and "take p input ! (p - dist) = input ! (p - dist)" by simp_all
    then show ?thesis using Suc.prems(1) by simp
  qed
  have eq0: "input ! p = input ! (p - dist)" using Suc.prems(7) [rule_format, of 0] by simp
  have t1: "take (Suc p) (outb ?d1) = take (Suc p) input"
    by (rule take_put [of p ?d0 input]) (use Suc.prems rd eq0 in simp_all)
  have "take (Suc p + n) (outb (copy_match n dist ?d1)) = take (Suc p + n) input"
  proof (rule Suc.IH [OF t1])
    show "out_pos ?d1 = Suc p" using Suc.prems(2) by simp
    show "1 \<le> dist" by fact
    show "dist \<le> Suc p" using Suc.prems(4) by simp
    show "Suc p + n \<le> length input" using Suc.prems(5) by simp
    show "length input \<le> length (outb ?d1)" using Suc.prems(6) by simp
    show "\<forall>i<n. input ! (Suc p + i) = input ! (Suc p + i - dist)"
      using Suc.prems(7) [rule_format, of "Suc _"] by simp
    show "length input \<le> 2 ^ 64" by fact
  qed
  then show ?case by (simp add: i)
qed

lemma nat_split_bytes: "(dist mod 256) OR push_bit 8 (dist div 256) = (dist :: nat)"
proof -
  have "take_bit 8 dist OR push_bit 8 (drop_bit 8 dist) = dist"
  proof (rule bit_eqI)
    fix n
    show "bit (take_bit 8 dist OR push_bit 8 (drop_bit 8 dist)) n = bit dist n"
      by (cases "n < 8")
         (simp_all add: bit_or_iff bit_take_bit_iff bit_push_bit_iff bit_drop_bit_eq not_less)
  qed
  then show ?thesis by (simp add: take_bit_eq_mod drop_bit_eq_div)
qed

lemma distance_decode:
  assumes "dist \<le> 65535"
  shows "unat ((ucast (word_of_nat (dist mod 256) :: byte) :: u32)
                 OR push_bit 8 (ucast (word_of_nat (dist div 256) :: byte))) = dist"
proof -
  have hi: "dist div 256 < 256" using assms by simp
  have a: "unat (ucast (word_of_nat (dist mod 256) :: byte) :: u32) = dist mod 256"
    by (simp add: unsigned_ucast_eq unat_of_nat take_bit_eq_mod)
  have b0: "unat (ucast (word_of_nat (dist div 256) :: byte) :: u32) = dist div 256"
    using hi by (simp add: unsigned_ucast_eq unat_of_nat take_bit_eq_mod)
  have "push_bit 8 (dist div 256) \<le> dist" by (simp add: push_bit_eq_mult)
  then have "push_bit 8 (dist div 256) < (2 :: nat) ^ 32" using assms by simp
  then have b: "unat (push_bit 8 (ucast (word_of_nat (dist div 256) :: byte) :: u32))
      = push_bit 8 (dist div 256)"
    by (simp add: unsigned_push_bit_eq b0 take_bit_nat_eq_self)
  show ?thesis
    by (simp only: unsigned_or_eq a b nat_split_bytes)
qed

lemma unat_len_byte: "3 \<le> len \<Longrightarrow> len \<le> 258 \<Longrightarrow> unat (word_of_nat (len - 3) :: byte) + 3 = len"
  by (simp add: unat_of_nat del: of_nat_diff)

lemma dec_tokens:
  "list_all token_ok ts \<Longrightarrow> covers input p ts = Some (length input) \<Longrightarrow>
   inp = pre @ concat (map token_bytes ts) \<Longrightarrow> in_ptr d = length pre \<Longrightarrow>
   in_remain d = length (concat (map token_bytes ts)) \<Longrightarrow> out_pos d = p \<Longrightarrow>
   take p (outb d) = take p input \<Longrightarrow> length input \<le> length (outb d) \<Longrightarrow>
   length input \<le> 2 ^ 64 \<Longrightarrow>
   out_pos (dec_loop inp (length input) d) = length input \<and>
   take (length input) (outb (dec_loop inp (length input) d)) = input"
proof (induction ts arbitrary: pre d p)
  case Nil
  then have "dec_loop inp (length input) d = d" by (subst dec_loop.simps) simp
  then show ?case using Nil by simp
next
  case (Cons tok ts)
  let ?rest = "concat (map token_bytes ts)"
  have inp: "inp = pre @ token_bytes tok @ ?rest" using Cons.prems(3) by simp
  have nth: "inp ! (length pre + j) = (token_bytes tok @ ?rest) ! j" for j
    unfolding inp by (rule nth_append_length_plus)
  have oks: "list_all token_ok ts" and ok: "token_ok tok" using Cons.prems(1) by simp_all
  have rem: "in_remain d = length (token_bytes tok) + length ?rest" using Cons.prems(5) by simp
  have step: "\<exists>d1 q. dec_body inp (length input) d = (True, d1) \<and> p < length input \<and>
      covers input q ts = Some (length input) \<and>
      in_ptr d1 = length (pre @ token_bytes tok) \<and> in_remain d1 = length ?rest \<and>
      out_pos d1 = q \<and> take q (outb d1) = take q input \<and> length input \<le> length (outb d1)"
  proof (cases tok)
    case (Literal v)
    have c: "p < length input" "input ! p = v" "covers input (p + 1) ts = Some (length input)"
      using Cons.prems(2) Literal by (auto split: if_splits)
    have v: "v \<noteq> 0xBF" "v \<noteq> 0xC0" using ok Literal by auto
    have b: "inp ! in_ptr d = v" using nth [of 0] Literal Cons.prems(4) by simp
    let ?d1 = "(put v d)\<lparr>in_ptr := in_ptr d + 1, in_remain := in_remain d - 1\<rparr>"
    have "dec_body inp (length input) d = (True, ?d1)" using b v by (rule dec_body_literal)
    moreover have "take (Suc p) (outb ?d1) = take (Suc p) input"
      using take_put [of p d input v] Cons.prems(6,7,8) c by simp
    ultimately show ?thesis
      using c rem Literal Cons.prems(4,6,8) by (intro exI [of _ ?d1] exI [of _ "p + 1"]) simp
  next
    case (Escaped v)
    have c: "p < length input" "input ! p = v" "covers input (p + 1) ts = Some (length input)"
      using Cons.prems(2) Escaped by (auto split: if_splits)
    have b: "inp ! in_ptr d = 0xBF" using nth [of 0] Escaped Cons.prems(4) by simp
    have b1: "inp ! (in_ptr d + 1) = v" using nth [of 1] Escaped Cons.prems(4) by simp
    let ?d1 = "(put v d)\<lparr>in_ptr := in_ptr d + 2, in_remain := in_remain d - 2\<rparr>"
    have "dec_body inp (length input) d = (True, ?d1)"
      using dec_body_escape [OF b, of "length input"] rem Escaped b1 by simp
    moreover have "take (Suc p) (outb ?d1) = take (Suc p) input"
      using take_put [of p d input v] Cons.prems(6,7,8) c by simp
    ultimately show ?thesis
      using c rem Escaped Cons.prems(4,6,8) by (intro exI [of _ ?d1] exI [of _ "p + 1"]) simp
  next
    case (Match dist len)
    have c: "dist \<le> p" "p + len \<le> length input"
        "list_all (\<lambda>i. input ! (p + i) = input ! (p + i - dist)) [0..<len]"
        "covers input (p + len) ts = Some (length input)"
      using Cons.prems(2) Match by (auto split: if_splits)
    have k: "1 \<le> dist" "dist \<le> 65535" "3 \<le> len" "len \<le> 258" using ok Match by auto
    have b: "inp ! in_ptr d = 0xC0" using nth [of 0] Match Cons.prems(4) by simp
    have b1: "inp ! (in_ptr d + 1) = word_of_nat (dist mod 256)"
      using nth [of 1] Match Cons.prems(4) by simp
    have b2: "inp ! (in_ptr d + 2) = word_of_nat (dist div 256)"
      using nth [of 2] Match Cons.prems(4) by simp
    have b3: "inp ! (in_ptr d + 3) = word_of_nat (len - 3)"
      using nth [of 3] Match Cons.prems(4) by simp
    have ml: "match_length inp (in_ptr d) = len"
      unfolding match_length_def b3 MIN_MATCH_def using k(3,4) by (rule unat_len_byte)
    have md: "match_distance inp (in_ptr d) = dist"
      unfolding match_distance_def b1 b2 using k(2) by (rule distance_decode)
    let ?d1 = "(copy_match len dist d)\<lparr>in_ptr := in_ptr d + 4, in_remain := in_remain d - 4\<rparr>"
    have "dec_body inp (length input) d = (True, ?d1)"
      using dec_body_match [OF b, of "length input"] rem Match ml md k c Cons.prems(6) by simp
    moreover have "take (p + len) (outb (copy_match len dist d)) = take (p + len) input"
      using Cons.prems(7,6) k(1) c(1,2) Cons.prems(8)
    proof (rule copy_match_correct)
      show "\<forall>i<len. input ! (p + i) = input ! (p + i - dist)"
        using c(3) by (simp add: list_all_iff)
      show "length input \<le> 2 ^ 64" by fact
    qed
    moreover have "p < length input" using c(2) k(3) by simp
    ultimately show ?thesis
      using c rem Match Cons.prems(4,6,8) by (intro exI [of _ ?d1] exI [of _ "p + len"]) simp
  qed
  then obtain d1 q where d1: "dec_body inp (length input) d = (True, d1)" "p < length input"
      "covers input q ts = Some (length input)"
      "in_ptr d1 = length (pre @ token_bytes tok)" "in_remain d1 = length ?rest"
      "out_pos d1 = q" "take q (outb d1) = take q input" "length input \<le> length (outb d1)"
    by blast
  have pos: "0 < in_remain d" using rem by (cases tok) simp_all
  have "dec_loop inp (length input) d = dec_loop inp (length input) d1"
    using d1(1,2) pos Cons.prems(6) by (subst dec_loop.simps) simp
  moreover have "out_pos (dec_loop inp (length input) d1) = length input \<and>
      take (length input) (outb (dec_loop inp (length input) d1)) = input"
    using oks d1(3) _ d1(4,5,6,7,8) Cons.prems(9) by (rule Cons.IH) (simp add: inp)
  ultimately show ?case by simp
qed

lemma parse_tokens_bytes:
  "list_all token_ok ts \<Longrightarrow> parse_tokens (concat (map token_bytes ts)) = Some ts"
proof (induction ts)
  case Nil
  then show ?case by simp
next
  case (Cons tok ts)
  then have ih: "parse_tokens (concat (map token_bytes ts)) = Some ts" by simp
  have ok: "token_ok tok" using Cons.prems by simp
  show ?case
  proof (cases tok)
    case (Literal v)
    then have "v \<noteq> 0xBF" "v \<noteq> 0xC0" using ok by auto
    then show ?thesis using Literal ih by simp
  next
    case (Escaped v)
    then show ?thesis using ih by simp
  next
    case (Match dist len)
    then have k: "1 \<le> dist" "dist \<le> 65535" "3 \<le> len" "len \<le> 258" using ok by auto
    have hi: "dist div 256 < 256" using k(2) by simp
    have "unat (word_of_nat (dist mod 256) :: byte) + 256 * unat (word_of_nat (dist div 256) :: byte) = dist"
      using hi by (simp add: unat_of_nat)
    moreover have "unat (word_of_nat (len - 3) :: byte) + 3 = len" using k(3,4) by (rule unat_len_byte)
    ultimately show ?thesis using Match ih by (simp del: of_nat_diff)
  qed
qed

subsection \<open>The header\<close>

lemma word32_bytes:
  "(ucast (ucast x :: byte) :: u32) OR push_bit 8 (ucast (ucast (drop_bit 8 x) :: byte))
     OR push_bit 16 (ucast (ucast (drop_bit 16 x) :: byte))
     OR push_bit 24 (ucast (ucast (drop_bit 24 x) :: byte)) = x"
proof (rule bit_eqI)
  fix n
  assume "possible_bit TYPE(u32) n"
  then have n: "n < 32" by (simp add: possible_bit_word)
  consider "n < 8" | "8 \<le> n \<and> n < 16" | "16 \<le> n \<and> n < 24" | "24 \<le> n \<and> n < 32"
    using n by linarith
  then show "bit ((ucast (ucast x :: byte) :: u32) OR push_bit 8 (ucast (ucast (drop_bit 8 x) :: byte))
     OR push_bit 16 (ucast (ucast (drop_bit 16 x) :: byte))
     OR push_bit 24 (ucast (ucast (drop_bit 24 x) :: byte))) n = bit x n"
    by cases (auto simp: bit_or_iff bit_push_bit_iff bit_ucast_iff bit_drop_bit_eq possible_bit_word)
qed

lemma word16_bytes:
  "(ucast (ucast x :: byte) :: u16) OR push_bit 8 (ucast (ucast (drop_bit 8 x) :: byte)) = x"
proof (rule bit_eqI)
  fix n
  assume "possible_bit TYPE(u16) n"
  then have n: "n < 16" by (simp add: possible_bit_word)
  consider "n < 8" | "8 \<le> n \<and> n < 16"
    using n by linarith
  then show "bit ((ucast (ucast x :: byte) :: u16) OR push_bit 8 (ucast (ucast (drop_bit 8 x) :: byte))) n
      = bit x n"
    by cases (auto simp: bit_or_iff bit_push_bit_iff bit_ucast_iff bit_drop_bit_eq possible_bit_word)
qed

lemma rd32_le32: "rd32 (pre @ le32 x @ r) (length pre) = x"
proof -
  have n: "(pre @ le32 x @ r) ! (length pre + j) = (le32 x @ r) ! j" for j
    by (rule nth_append_length_plus)
  show ?thesis
    unfolding rd32_def n using n [of 0] by (simp add: le32_def word32_bytes)
qed

lemma rd16_le16: "rd16 (pre @ le16 x @ r) (length pre) = x"
proof -
  have n: "(pre @ le16 x @ r) ! (length pre + j) = (le16 x @ r) ! j" for j
    by (rule nth_append_length_plus)
  show ?thesis
    unfolding rd16_def n using n [of 0] by (simp add: le16_def word16_bytes)
qed

lemma hdr_fields:
  "hdr_magic (header input st @ r) = NZ_MAGIC"
  "hdr_size (header input st @ r) = unat (word_of_nat (length input) :: u32)"
  "hdr_crc (header input st @ r) = nz_crc32 input (length input)"
  "hdr_window (header input st @ r) = unat (word_of_nat (window_size st) :: u16)"
proof -
  show "hdr_magic (header input st @ r) = NZ_MAGIC"
    using rd32_le32 [of "[]"] by (simp add: hdr_magic_def header_def)
  show "hdr_size (header input st @ r) = unat (word_of_nat (length input) :: u32)"
    using rd32_le32 [of "le32 NZ_MAGIC"] by (simp add: hdr_size_def header_def)
  show "hdr_crc (header input st @ r) = nz_crc32 input (length input)"
    using rd32_le32 [of "le32 NZ_MAGIC @ le32 (word_of_nat (length input))"]
    by (simp add: hdr_crc_def header_def)
  show "hdr_window (header input st @ r) = unat (word_of_nat (window_size st) :: u16)"
    using rd16_le16 [of "le32 NZ_MAGIC @ le32 (word_of_nat (length input))
        @ le32 (nz_crc32 input (length input))"]
    by (simp add: hdr_window_def header_def)
qed

lemma window_clamp:
  "window_size (nz_init (size_t_of_int w))
     = (if 1024 \<le> sint w \<and> sint w \<le> 65535 then nat (sint w) else 65535)"
proof (cases "sint w < 0")
  case True
  have lo: "- (2 ^ 31) \<le> sint w" using sint_ge [of w] by simp
  have "sint w mod 2 ^ 64 = (sint w + 2 ^ 64) mod 2 ^ 64" by simp
  also have "\<dots> = sint w + 2 ^ 64"
    using lo True by (intro mod_pos_pos_trivial) simp_all
  finally have "nat (sint w mod 2 ^ 64) > 65535" using lo by simp
  then show ?thesis using True
    by (auto simp: nz_init_def size_t_of_int_def Let_def MIN_WINDOW_def MAX_WINDOW_def
          DEFAULT_WINDOW_def)
next
  case False
  then have "sint w mod 2 ^ 64 = sint w"
    using sint_lt [of w] by simp
  then show ?thesis using False
    by (auto simp: nz_init_def size_t_of_int_def Let_def MIN_WINDOW_def MAX_WINDOW_def
          DEFAULT_WINDOW_def)
qed

lemma crc_cong: "take n a = take n c \<Longrightarrow> nz_crc32 a n = nz_crc32 c n"
proof -
  assume t: "take n a = take n c"
  have "a ! i = c ! i" if "i < n" for i
    using that t by (metis nth_take)
  then have m: "map (\<lambda>i. a ! i) [0..<n] = map (\<lambda>i. c ! i) [0..<n]" by simp
  show ?thesis by (simp only: nz_crc32_def m)
qed

subsection \<open>Whole runs of the encoder\<close>

lemma comp_body_append:
  "comp_body b input out_size s = (c, s') \<Longrightarrow> \<exists>r. cout s' = cout s @ r"
  by (auto simp: comp_body_def Let_def split: prod.splits if_splits)

lemma comp_loop_prefix: "\<exists>r. cout (comp_loop b input out_size s) = cout s @ r"
proof (induction b input out_size s rule: comp_loop.induct)
  case (1 b input out_size s)
  show ?case
  proof (cases "cpos s < length input")
    case False
    then show ?thesis by (subst comp_loop.simps) simp
  next
    case True
    obtain c s' where e: "comp_body b input out_size s = (c, s')"
      by (cases "comp_body b input out_size s")
    obtain r where r: "cout s' = cout s @ r" using comp_body_append [OF e] by blast
    show ?thesis
    proof (cases c)
      case False
      then have "comp_loop b input out_size s = s'"
        using e True by (subst comp_loop.simps) simp
      then show ?thesis using r by simp
    next
      case cont: True
      have l: "comp_loop b input out_size s = comp_loop b input out_size s'"
        using e True cont by (subst comp_loop.simps) simp
      obtain r' where "cout (comp_loop b input out_size s') = cout s' @ r'"
        using 1 [OF True e [symmetric]] cont by auto
      then show ?thesis unfolding l using r by simp
    qed
  qed
qed

lemma comp_body_progress:
  assumes "cpos s < length input" and "length (cout s) \<le> 14 + 2 * cpos s"
    and "2 * length input + 15 \<le> out_size"
  shows "\<exists>s'. comp_body b input out_size s = (True, s') \<and>
           length (cout s') \<le> 14 + 2 * cpos s' \<and> cpos s' \<le> length input"
proof -
  obtain l c st' where f: "find_match b input (cpos s) (length input) (cst s) = (l, c, st')"
    by (cases "find_match b input (cpos s) (length input) (cst s)")
  have "l \<le> length input - cpos s" using find_match_le [OF f] by simp
  then have lb: "cpos s + l \<le> length input" using assms(1) by arith
  show ?thesis
  proof (cases "l \<ge> MIN_MATCH")
    case True
    then have l3: "3 \<le> l" by (simp add: MIN_MATCH_def)
    have "length (cout s) + 4 \<le> out_size" using assms(2,3) lb l3 by arith
    then have "\<not> int (length (cout s)) > int out_size - 4" by simp
    then show ?thesis
      using f True lb l3 assms(2) by (simp add: comp_body_def Let_def)
  next
    case False
    have "length (cout s) + 2 < out_size" using assms by arith
    then have "\<not> int (length (cout s)) \<ge> int out_size - 2"
      and "\<not> int (length (cout s)) \<ge> int out_size - 1" by simp_all
    then show ?thesis
      using f False assms(1,2) by (simp add: comp_body_def Let_def)
  qed
qed

lemma comp_loop_complete:
  "length (cout s) \<le> 14 + 2 * cpos s \<Longrightarrow> cpos s \<le> length input \<Longrightarrow>
   2 * length input + 15 \<le> out_size \<Longrightarrow>
   cpos (comp_loop b input out_size s) = length input"
proof (induction b input out_size s rule: comp_loop.induct)
  case (1 b input out_size s)
  show ?case
  proof (cases "cpos s < length input")
    case False
    then show ?thesis using 1(3) by (subst comp_loop.simps) simp
  next
    case True
    obtain s' where s': "comp_body b input out_size s = (True, s')"
        "length (cout s') \<le> 14 + 2 * cpos s'" "cpos s' \<le> length input"
      using comp_body_progress [OF True 1(2) 1(4)] by blast
    have "comp_loop b input out_size s = comp_loop b input out_size s'"
      using True s'(1) by (subst comp_loop.simps) simp
    moreover have "cpos (comp_loop b input out_size s') = length input"
      using 1(1) [OF True s'(1) [symmetric] _ s'(2,3) 1(4)] by simp
    ultimately show ?thesis by simp
  qed
qed

lemma compress_complete:
  "2 * length input + 15 \<le> out_size \<Longrightarrow>
   cpos (compress_final b input out_size w) = length input"
  unfolding compress_final_def Let_def by (rule comp_loop_complete) simp_all

lemma compress_stream:
  "\<exists>r. cout (compress_final b input out_size w) = header input (nz_init (size_t_of_int w)) @ r"
  unfolding compress_final_def Let_def
  using comp_loop_prefix [of b input out_size "\<lparr>cpos = 0,
     cout = header input (nz_init (size_t_of_int w)), cst = nz_init (size_t_of_int w)\<rparr>"]
  by simp

lemma window_range:
  "1024 \<le> window_size (nz_init (size_t_of_int w)) \<and> window_size (nz_init (size_t_of_int w)) \<le> 65535"
  unfolding window_clamp by auto

lemma compress_tokens:
  assumes "length input < 2 ^ 32"
  shows "\<exists>ts. cout (compress_final b input out_size w)
               = header input (nz_init (size_t_of_int w)) @ concat (map token_bytes ts) \<and>
             list_all token_ok ts \<and>
             covers input 0 ts = Some (cpos (compress_final b input out_size w))"
  unfolding compress_final_def Let_def
  using comp_loop_tokens [of input "\<lparr>cpos = 0, cout = header input (nz_init (size_t_of_int w)),
     cst = nz_init (size_t_of_int w)\<rparr>" b out_size] assms window_range [of w]
  by simp

lemma roundtrip_core:
  assumes "length input < 2 ^ 32"
    and "cpos (compress_final b input out_size w) = length input"
    and "length input \<le> length output"
  shows "\<exists>out' tr. nanozip_decompress (cout (compress_final b input out_size w)) output
            = (length input, out', tr) \<and> take (length input) out' = input"
proof -
  define st where "st = nz_init (size_t_of_int w)"
  define stream where "stream = cout (compress_final b input out_size w)"
  obtain ts where ts: "stream = header input st @ concat (map token_bytes ts)"
      "list_all token_ok ts" "covers input 0 ts = Some (length input)"
    using compress_tokens [OF assms(1), of b out_size w] assms(2)
    unfolding st_def stream_def by auto
  have len: "length stream = 14 + length (concat (map token_bytes ts))"
    unfolding ts(1) by simp
  have m: "hdr_magic stream = NZ_MAGIC" unfolding ts(1) by (rule hdr_fields)
  have sz: "hdr_size stream = length input"
    unfolding ts(1) hdr_fields using assms(1) by (simp add: unat_of_nat)
  have crc: "hdr_crc stream = nz_crc32 input (length input)" unfolding ts(1) by (rule hdr_fields)
  have win: "hdr_window stream = window_size st"
    unfolding ts(1) hdr_fields using window_range [of w] by (simp add: unat_of_nat st_def)
  have wr: "hdr_window stream \<noteq> 0 \<and> \<not> hdr_window stream > MAX_WINDOW"
    unfolding win st_def MAX_WINDOW_def using window_range [of w] by simp
  define d where "d = dec_loop stream (length input) (dec_start stream output)"
  have dl: "out_pos d = length input \<and> take (length input) (outb d) = input"
    unfolding d_def using ts(2,3) ts(1)
  proof (rule dec_tokens)
    show "in_ptr (dec_start stream output) = length (header input st)"
      by (simp add: dec_start_def)
    show "in_remain (dec_start stream output) = length (concat (map token_bytes ts))"
      by (simp add: dec_start_def len)
    show "out_pos (dec_start stream output) = 0" by (simp add: dec_start_def)
    show "take 0 (outb (dec_start stream output)) = take 0 input" by simp
    show "length input \<le> length (outb (dec_start stream output))"
      using assms(3) by (simp add: dec_start_def)
    show "length input \<le> 2 ^ 64" using assms(1) by simp
  qed
  have c: "nz_crc32 (outb d) (length input) = nz_crc32 input (length input)"
    by (rule crc_cong) (use dl in simp)
  have "nanozip_decompress stream output
      = (length input, outb d, trace d @ map Rd [0..<length input])"
    using m sz crc wr dl c assms(3) len
    by (simp add: nanozip_decompress_def Let_def d_def)
  then show ?thesis using dl unfolding stream_def by blast
qed

lemma compress_nonzero:
  "length input + 14 \<le> out_size \<Longrightarrow>
   nanozip_compress b input out_size w
     = (length (cout (compress_final b input out_size w)), cout (compress_final b input out_size w)) \<and>
   14 \<le> length (cout (compress_final b input out_size w))"
proof -
  assume a: "length input + 14 \<le> out_size"
  obtain r where "cout (compress_final b input out_size w) = header input (nz_init (size_t_of_int w)) @ r"
    using compress_stream by blast
  then have "14 \<le> length (cout (compress_final b input out_size w))" by simp
  then show ?thesis using a by (simp add: nanozip_compress_def Let_def)
qed

lemma decompress_zero_or_size:
  "fst (nanozip_decompress inp output) = 0 \<or> fst (nanozip_decompress inp output) = hdr_size inp"
  by (simp add: decompress_ret)

subsection \<open>Evaluating the encoder on concrete inputs\<close>

lemma walk_numeral:
  "walk b data pos endp st (numeral k) cand best_len best_cand =
     (if cand = 0 then (best_len, best_cand)
      else if unat cand = pos then
        walk b data pos endp st (pred_numeral k) (chain st (unat cand mod window_size st)) best_len best_cand
      else if (pos + 2 ^ 64 - unat cand) mod 2 ^ 64 > window_size st then (best_len, best_cand)
      else if match_len b data pos cand (if endp - pos < MAX_MATCH then endp - pos else MAX_MATCH) > best_len
            \<and> match_len b data pos cand (if endp - pos < MAX_MATCH then endp - pos else MAX_MATCH) \<ge> MIN_MATCH
      then (if match_len b data pos cand (if endp - pos < MAX_MATCH then endp - pos else MAX_MATCH) \<ge> MAX_MATCH
            then (match_len b data pos cand (if endp - pos < MAX_MATCH then endp - pos else MAX_MATCH), cand)
            else walk b data pos endp st (pred_numeral k) (chain st (unat cand mod window_size st))
                   (match_len b data pos cand (if endp - pos < MAX_MATCH then endp - pos else MAX_MATCH)) cand)
      else walk b data pos endp st (pred_numeral k) (chain st (unat cand mod window_size st)) best_len best_cand)"
  using walk_Suc [of b data pos endp st "pred_numeral k" cand best_len best_cand]
  by (simp only: numeral_eq_Suc [symmetric])

lemmas comp_eval = nanozip_compress_def compress_final_def comp_loop.simps comp_body_def
  find_match_def hash3_def walk_numeral match_len_def vec_loop.simps scalar_loop.simps
  VEC_LOAD_def VEC_CMP_def VEC_MOVEMASK_def ALL_ONES_def ctz_def
  nz_init_def size_t_of_int_def header_def le32_def le16_def
  MIN_MATCH_def MAX_MATCH_def MIN_WINDOW_def MAX_WINDOW_def DEFAULT_WINDOW_def HASH_BITS_def
  MATCH_SEARCH_LIMIT_def NZ_MAGIC_def Let_def upt_conv_Cons

lemmas vec_eval = match_len_def vec_loop.simps scalar_loop.simps
  VEC_LOAD_def VEC_CMP_def VEC_MOVEMASK_def ALL_ONES_def ctz_def Let_def upt_conv_Cons

subsection \<open>The vector comparison and the plain comparison\<close>

text \<open>
  C7 (as amended).  Whichever back end is compiled in, the vector loop followed by the scalar
  tail computes the number of leading equal bytes of the spans at \<open>pos\<close> and at the
  candidate, bounded by \<open>max_len\<close>, exactly as the plain byte-by-byte comparison does,
  provided the 32-bit index \<^verbatim>\<open>candidate+len\<close> of the scalar tail cannot wrap, that is
  \<open>candidate + max_len \<le> 2 ^ 32\<close> (true for every input shorter than 4 GiB).
\<close>

theorem vector_compare_is_scalar:
  assumes "unat cand + max_len \<le> 2 ^ 32"
  shows "match_len b data pos cand max_len = naive_match_len data pos (unat cand) max_len"
proof -
  have "let r = vec_loop b data pos cand max_len 0
    in 0 \<le> r \<and> r \<le> max_len \<and> (\<forall>i<r. data ! (pos + i) = data ! (unat cand + i))"
    by (rule vec_loop_sound) simp_all
  then show ?thesis
    unfolding match_len_def using assms by (intro scalar_loop_char) (simp_all add: Let_def)
qed

theorem vector_compare_is_scalar_witness:
  "unat (1 :: u32) + 35 \<le> 2 ^ 32 \<and> 35 = min (70 - 35) (258 :: nat) \<and>
   match_len AVX2 [7, 1, 2, 3, 4, 5, 6, 7, 8, 9, 10, 11, 12, 13, 14, 15, 16, 17, 18, 19, 20, 21, 22, 23, 24, 25, 26, 27, 28, 29, 30, 31, 32, 33, 34, 1, 2, 3, 4, 5, 6, 7, 8, 9, 10, 11, 12, 13, 14, 15, 16, 17, 18, 19, 20, 99, 22, 23, 24, 25, 26, 27, 28, 29, 30, 31, 32, 33, 34, 35] 35 1 35 = 20 \<and>
   match_len AVX2_SCAN [7, 1, 2, 3, 4, 5, 6, 7, 8, 9, 10, 11, 12, 13, 14, 15, 16, 17, 18, 19, 20, 21, 22, 23, 24, 25, 26, 27, 28, 29, 30, 31, 32, 33, 34, 1, 2, 3, 4, 5, 6, 7, 8, 9, 10, 11, 12, 13, 14, 15, 16, 17, 18, 19, 20, 99, 22, 23, 24, 25, 26, 27, 28, 29, 30, 31, 32, 33, 34, 35] 35 1 35 = 20 \<and>
   match_len NEON [7, 1, 2, 3, 4, 5, 6, 7, 8, 9, 10, 11, 12, 13, 14, 15, 16, 17, 18, 19, 20, 21, 22, 23, 24, 25, 26, 27, 28, 29, 30, 31, 32, 33, 34, 1, 2, 3, 4, 5, 6, 7, 8, 9, 10, 11, 12, 13, 14, 15, 16, 17, 18, 19, 20, 99, 22, 23, 24, 25, 26, 27, 28, 29, 30, 31, 32, 33, 34, 35] 35 1 35 = 20 \<and>
   match_len PORTABLE [7, 1, 2, 3, 4, 5, 6, 7, 8, 9, 10, 11, 12, 13, 14, 15, 16, 17, 18, 19, 20, 21, 22, 23, 24, 25, 26, 27, 28, 29, 30, 31, 32, 33, 34, 1, 2, 3, 4, 5, 6, 7, 8, 9, 10, 11, 12, 13, 14, 15, 16, 17, 18, 19, 20, 99, 22, 23, 24, 25, 26, 27, 28, 29, 30, 31, 32, 33, 34, 35] 35 1 35 = 20 \<and>
   vec_loop AVX2 [7, 1, 2, 3, 4, 5, 6, 7, 8, 9, 10, 11, 12, 13, 14, 15, 16, 17, 18, 19, 20, 21, 22, 23, 24, 25, 26, 27, 28, 29, 30, 31, 32, 33, 34, 1, 2, 3, 4, 5, 6, 7, 8, 9, 10, 11, 12, 13, 14, 15, 16, 17, 18, 19, 20, 99, 22, 23, 24, 25, 26, 27, 28, 29, 30, 31, 32, 33, 34, 35] 35 1 35 0 = 20 \<and>
   vec_loop AVX2_SCAN [7, 1, 2, 3, 4, 5, 6, 7, 8, 9, 10, 11, 12, 13, 14, 15, 16, 17, 18, 19, 20, 21, 22, 23, 24, 25, 26, 27, 28, 29, 30, 31, 32, 33, 34, 1, 2, 3, 4, 5, 6, 7, 8, 9, 10, 11, 12, 13, 14, 15, 16, 17, 18, 19, 20, 99, 22, 23, 24, 25, 26, 27, 28, 29, 30, 31, 32, 33, 34, 35] 35 1 35 0 = 20 \<and>
   vec_loop NEON [7, 1, 2, 3, 4, 5, 6, 7, 8, 9, 10, 11, 12, 13, 14, 15, 16, 17, 18, 19, 20, 21, 22, 23, 24, 25, 26, 27, 28, 29, 30, 31, 32, 33, 34, 1, 2, 3, 4, 5, 6, 7, 8, 9, 10, 11, 12, 13, 14, 15, 16, 17, 18, 19, 20, 99, 22, 23, 24, 25, 26, 27, 28, 29, 30, 31, 32, 33, 34, 35] 35 1 35 0 = 20 \<and>
   vec_loop PORTABLE [7, 1, 2, 3, 4, 5, 6, 7, 8, 9, 10, 11, 12, 13, 14, 15, 16, 17, 18, 19, 20, 21, 22, 23, 24, 25, 26, 27, 28, 29, 30, 31, 32, 33, 34, 1, 2, 3, 4, 5, 6, 7, 8, 9, 10, 11, 12, 13, 14, 15, 16, 17, 18, 19, 20, 99, 22, 23, 24, 25, 26, 27, 28, 29, 30, 31, 32, 33, 34, 35] 35 1 35 0 = 20 \<and>
   naive_match_len [7, 1, 2, 3, 4, 5, 6, 7, 8, 9, 10, 11, 12, 13, 14, 15, 16, 17, 18, 19, 20, 21, 22, 23, 24, 25, 26, 27, 28, 29, 30, 31, 32, 33, 34, 1, 2, 3, 4, 5, 6, 7, 8, 9, 10, 11, 12, 13, 14, 15, 16, 17, 18, 19, 20, 99, 22, 23, 24, 25, 26, 27, 28, 29, 30, 31, 32, 33, 34, 35] 35 (unat (1 :: u32)) 35 = 20 \<and>
   match_len PORTABLE [7, 1, 2, 3, 4, 5, 6, 7, 8, 9, 10, 1, 2, 3, 4, 5, 6, 7, 8, 9, 77, 0] 11 1 11 = 9 \<and>
   vec_loop PORTABLE [7, 1, 2, 3, 4, 5, 6, 7, 8, 9, 10, 1, 2, 3, 4, 5, 6, 7, 8, 9, 77, 0] 11 1 11 0 = 8 \<and>
   naive_match_len [7, 1, 2, 3, 4, 5, 6, 7, 8, 9, 10, 1, 2, 3, 4, 5, 6, 7, 8, 9, 77, 0] 11 (unat (1 :: u32)) 11 = 9"
proof -
  let ?D = "[7, 1, 2, 3, 4, 5, 6, 7, 8, 9, 10, 11, 12, 13, 14, 15, 16, 17, 18, 19, 20, 21, 22, 23, 24, 25, 26, 27, 28, 29, 30, 31, 32, 33, 34, 1, 2, 3, 4, 5, 6, 7, 8, 9, 10, 11, 12, 13, 14, 15, 16, 17, 18, 19, 20, 99, 22, 23, 24, 25, 26, 27, 28, 29, 30, 31, 32, 33, 34, 35] :: byte list"
  let ?E = "[7, 1, 2, 3, 4, 5, 6, 7, 8, 9, 10, 1, 2, 3, 4, 5, 6, 7, 8, 9, 77, 0] :: byte list"
  have v: "vec_loop AVX2 ?D 35 1 35 0 = 20" "vec_loop AVX2_SCAN ?D 35 1 35 0 = 20"
      "vec_loop NEON ?D 35 1 35 0 = 20" "vec_loop PORTABLE ?D 35 1 35 0 = 20"
    by (simp_all add: vec_eval)
  have m: "match_len AVX2 ?D 35 1 35 = 20" "match_len AVX2_SCAN ?D 35 1 35 = 20"
      "match_len NEON ?D 35 1 35 = 20" "match_len PORTABLE ?D 35 1 35 = 20"
    by (simp_all add: vec_eval)
  have v2: "vec_loop PORTABLE ?E 11 1 11 0 = 8"
    by (simp add: vec_eval)
  have m2: "match_len PORTABLE ?E 11 1 11 = 9"
    by (simp add: vec_eval)
  show ?thesis
    using vector_compare_is_scalar [of 1 35 AVX2 ?D 35]
      vector_compare_is_scalar [of 1 35 AVX2_SCAN ?D 35]
      vector_compare_is_scalar [of 1 35 NEON ?D 35]
      vector_compare_is_scalar [of 1 35 PORTABLE ?D 35]
      vector_compare_is_scalar [of 1 11 PORTABLE ?E 11] v m v2 m2
    by simp
qed

text \<open>
  The claim as stated fails on a buffer larger than 4 GiB, for a comparison that
  \<^verbatim>\<open>find_match\<close> does make: at position \<open>2 ^ 32\<close>, with eight bytes left (so
  \<open>max_len = 8\<close>) and the candidate \<open>2 ^ 32 - 1\<close> that the call at the position before has
  left in \<^verbatim>\<open>head\<close>.  The eight bytes of the two spans agree.  The 8-byte back end compares
  them in one block, through pointers, and finds 8.  With 32-byte lanes the vector loop is
  not entered, and the scalar tail, whose index \<^verbatim>\<open>candidate+len\<close> wraps to 0 at
  \<open>len = 1\<close>, reads \<^verbatim>\<open>data[0]\<close> and stops at 1.  So the back ends differ from the plain
  comparison and from each other, and \<^verbatim>\<open>find_match\<close> returns a match of length 8 with one
  and no match with the other.
\<close>

theorem vector_compare_counterexample:
  "4294967296 + 3 \<le> (4294967304 :: nat) \<and> 8 = min (4294967304 - 4294967296) (258 :: nat) \<and>
   match_len AVX2 (9 # replicate 4294967295 1 @ [1, 1, 1, 1, 1, 1, 1, 1]) 4294967296 4294967295 8 = 1 \<and>
   naive_match_len (9 # replicate 4294967295 1 @ [1, 1, 1, 1, 1, 1, 1, 1]) 4294967296
     (unat (4294967295 :: u32)) 8 = 8 \<and>
   match_len PORTABLE (9 # replicate 4294967295 1 @ [1, 1, 1, 1, 1, 1, 1, 1]) 4294967296 4294967295 8 = 8 \<and>
   fst (find_match AVX2 (9 # replicate 4294967295 1 @ [1, 1, 1, 1, 1, 1, 1, 1]) 4294967296 4294967304
          (snd (snd (find_match AVX2 (9 # replicate 4294967295 1 @ [1, 1, 1, 1, 1, 1, 1, 1])
                       4294967295 4294967304 (nz_init 0))))) = 0 \<and>
   fst (find_match PORTABLE (9 # replicate 4294967295 1 @ [1, 1, 1, 1, 1, 1, 1, 1]) 4294967296 4294967304
          (snd (snd (find_match PORTABLE (9 # replicate 4294967295 1 @ [1, 1, 1, 1, 1, 1, 1, 1])
                       4294967295 4294967304 (nz_init 0))))) = 8"
proof -
  let ?D = "9 # replicate 4294967295 1 @ [1, 1, 1, 1, 1, 1, 1, 1] :: byte list"
  let ?st = "\<lparr>head = (\<lambda>_. 0)(5080 := 4294967295), chain = (\<lambda>_. 0)(0 := 0), window_size = 65535\<rparr>"
  have a: "match_len AVX2 ?D 4294967296 4294967295 8 = 1"
    by (simp add: vec_eval nth_append)
  have p: "match_len PORTABLE ?D 4294967296 4294967295 8 = 8"
    by (simp add: vec_eval nth_append)
  have n: "naive_match_len ?D 4294967296 4294967295 8 = 8"
    by (simp add: naive_match_len_def upt_conv_Cons nth_append)
  have h: "unat (hash3 ?D 4294967296) = 5080" "unat (hash3 ?D 4294967295) = 5080"
    by (simp_all add: hash3_def HASH_BITS_def Let_def nth_append)
  have s: "snd (snd (find_match b ?D 4294967295 4294967304 (nz_init 0))) = ?st" for b
    by (simp add: find_match_def h walk_numeral nz_init_def MIN_MATCH_def MAX_MATCH_def
        MIN_WINDOW_def MAX_WINDOW_def DEFAULT_WINDOW_def MATCH_SEARCH_LIMIT_def Let_def
        del: walk.simps)
  have fa: "fst (find_match AVX2 ?D 4294967296 4294967304 ?st) = 0"
    by (simp add: find_match_def h walk_numeral a MIN_MATCH_def MAX_MATCH_def
        MATCH_SEARCH_LIMIT_def Let_def del: walk.simps)
  have fp: "fst (find_match PORTABLE ?D 4294967296 4294967304 ?st) = 8"
    by (simp add: find_match_def h walk_numeral p MIN_MATCH_def MAX_MATCH_def
        MATCH_SEARCH_LIMIT_def Let_def del: walk.simps)
  show ?thesis unfolding s using a p n fa fp by simp
qed

subsection \<open>The frame of the match finder\<close>

lemma find_match_effect:
  "(pos + 3 > endp \<longrightarrow> find_match b data pos endp st = (0, 0, st)) \<and>
   (pos + 3 \<le> endp \<longrightarrow>
      (case find_match b data pos endp st of
         (l, m, st') \<Rightarrow>
            head st' = (head st)(unat (hash3 data pos) := word_of_nat pos) \<and>
            chain st' = (chain st)(pos mod window_size st := head st (unat (hash3 data pos))) \<and>
            window_size st' = window_size st \<and>
            (pos < 2 ^ 32 \<longrightarrow> unat (head st' (unat (hash3 data pos))) = pos)))"
  by (auto simp: find_match_def MIN_MATCH_def Let_def unat_of_nat take_bit_nat_eq_self
      split: prod.splits)

text \<open>
  C6 (as amended).  If \<open>pos + 3 > end\<close>, \<^verbatim>\<open>find_match\<close> returns length 0 and leaves the state
  as it is.  Otherwise, whatever the walk finds, the state after the call differs from the
  state before in two entries only: \<^verbatim>\<open>head[hash]\<close> holds \<open>pos\<close> converted to 32 bits, which
  is \<open>pos\<close> itself whenever \<open>pos < 2 ^ 32\<close>, and \<^verbatim>\<open>chain[pos mod window_size]\<close> holds the
  value \<^verbatim>\<open>head[hash]\<close> had before the call.
\<close>

theorem find_match_frame:
  "(pos + 3 > endp \<longrightarrow> find_match b data pos endp st = (0, 0, st)) \<and>
   (pos + 3 \<le> endp \<longrightarrow>
      (case find_match b data pos endp st of
         (l, m, st') \<Rightarrow>
            head st' = (head st)(unat (hash3 data pos) := word_of_nat pos) \<and>
            chain st' = (chain st)(pos mod window_size st := head st (unat (hash3 data pos))) \<and>
            window_size st' = window_size st \<and>
            (pos < 2 ^ 32 \<longrightarrow> unat (head st' (unat (hash3 data pos))) = pos)))"
  by (rule find_match_effect)

theorem find_match_frame_witness:
  "(2 :: nat) + 3 > 4 \<and> find_match AVX2 [1, 2, 3, 4] 2 4 (nz_init 0) = (0, 0, nz_init 0) \<and>
   (4 :: nat) + 3 \<le> 8 \<and> (4 :: nat) < 2 ^ 32 \<and>
   unat (hash3 [5, 1, 2, 3, 1, 2, 3, 9] 4) = 12498 \<and>
   head ((nz_init 0)\<lparr>head := (\<lambda>_. 0)(12498 := 1)\<rparr>) 12498 = 1 \<and>
   chain ((nz_init 0)\<lparr>head := (\<lambda>_. 0)(12498 := 1)\<rparr>) 4 = 0 \<and>
   (case find_match PORTABLE [5, 1, 2, 3, 1, 2, 3, 9] 4 8 ((nz_init 0)\<lparr>head := (\<lambda>_. 0)(12498 := 1)\<rparr>) of
      (l, m, st') \<Rightarrow>
          l = 3 \<and> m = 1 \<and> head st' 12498 = 4 \<and> chain st' 4 = 1 \<and>
          head st' = (\<lambda>_. 0)(12498 := 4) \<and> chain st' = (\<lambda>_. 0)(4 := 1) \<and>
          window_size st' = 65535) \<and>
   unat (hash3 [5, 1, 2, 3, 1, 2, 4, 9] 4) = 6240 \<and>
   (case find_match PORTABLE [5, 1, 2, 3, 1, 2, 4, 9] 4 8 ((nz_init 0)\<lparr>head := (\<lambda>_. 0)(6240 := 1)\<rparr>) of
      (l, m, st') \<Rightarrow>
          l = 0 \<and> head st' 6240 = 4 \<and> chain st' 4 = 1 \<and>
          head st' = (\<lambda>_. 0)(6240 := 4) \<and> chain st' = (\<lambda>_. 0)(4 := 1))"
proof -
  let ?D = "[5, 1, 2, 3, 1, 2, 3, 9] :: byte list"
  let ?E = "[5, 1, 2, 3, 1, 2, 4, 9] :: byte list"
  let ?st = "(nz_init 0)\<lparr>head := (\<lambda>_. 0)(12498 := 1)\<rparr>"
  let ?su = "(nz_init 0)\<lparr>head := (\<lambda>_. 0)(6240 := 1)\<rparr>"
  have h: "unat (hash3 ?D 4) = 12498" "unat (hash3 ?E 4) = 6240"
    by (simp_all add: hash3_def HASH_BITS_def Let_def)
  have w: "window_size ?st = 65535" "window_size ?su = 65535"
    by (simp_all add: nz_init_def MIN_WINDOW_def DEFAULT_WINDOW_def MAX_WINDOW_def Let_def)
  have i: "head ?st 12498 = 1" "chain ?st 4 = 0" "head ?st = (\<lambda>_. 0)(12498 := 1)"
      "chain ?st = (\<lambda>_. 0)" "head ?su = (\<lambda>_. 0)(6240 := 1)" "chain ?su = (\<lambda>_. 0)"
    by (simp_all add: nz_init_def Let_def)
  have e: "fst (find_match PORTABLE ?D 4 8 ?st) = 3" "fst (snd (find_match PORTABLE ?D 4 8 ?st)) = 1"
    by (simp_all add: comp_eval del: walk.simps)
  have f: "fst (find_match PORTABLE ?E 4 8 ?su) = 0"
    by (simp add: comp_eval del: walk.simps)
  have s: "find_match AVX2 [1, 2, 3, 4] 2 4 (nz_init 0) = (0, 0, nz_init 0)"
    using find_match_frame [where pos = 2 and endp = 4 and b = AVX2 and data = "[1, 2, 3, 4]"
      and st = "nz_init 0"] by simp
  have a: "case find_match PORTABLE ?D 4 8 ?st of
      (l, m, st') \<Rightarrow> head st' = (\<lambda>_. 0)(12498 := 4) \<and> chain st' = (\<lambda>_. 0)(4 := 1) \<and>
          window_size st' = 65535"
    using find_match_frame [where pos = 4 and endp = 8 and b = PORTABLE and data = ?D and st = ?st]
    unfolding h w i by (simp split: prod.splits)
  have c: "case find_match PORTABLE ?E 4 8 ?su of
      (l, m, st') \<Rightarrow> head st' = (\<lambda>_. 0)(6240 := 4) \<and> chain st' = (\<lambda>_. 0)(4 := 1)"
    using find_match_frame [where pos = 4 and endp = 8 and b = PORTABLE and data = ?E and st = ?su]
    unfolding h w i by (simp split: prod.splits)
  show ?thesis
    using h i(1,2) e f s a c by (simp split: prod.splits)
qed

text \<open>At position \<open>2 ^ 32\<close> the entry written to \<^verbatim>\<open>head\<close> is not the position.\<close>

theorem find_match_frame_counterexample:
  "(case find_match PORTABLE (replicate 4294967299 0) 4294967296 4294967299 (nz_init 0) of
      (l, m, st') \<Rightarrow> unat (head st' (unat (hash3 (replicate 4294967299 0) 4294967296))))
    \<noteq> 4294967296"
  using find_match_effect [where pos = 4294967296 and endp = 4294967299 and b = PORTABLE
      and data = "replicate 4294967299 0" and st = "nz_init 0"]
  by (simp split: prod.splits)

subsection \<open>Round trip, token stream and header\<close>

text \<open>
  C1 (as amended).  For every input shorter than \<open>2 ^ 32\<close> bytes, every window parameter and
  every output capacity with which \<^verbatim>\<open>nanozip_compress\<close> passes its capacity test and consumes
  all input positions, the result is non-zero, and \<^verbatim>\<open>nanozip_decompress\<close> applied to the bytes
  written, with an output buffer at least as long as the input, returns the input length and
  leaves the input, byte for byte, at the front of the output buffer.
\<close>

theorem roundtrip:
  assumes "length input < 2 ^ 32"
    and "length input + 14 \<le> out_size"
    and "cpos (compress_final b input out_size w) = length input"
    and "length input \<le> length output"
  shows "fst (nanozip_compress b input out_size w) \<noteq> 0 \<and>
    (case nanozip_decompress (snd (nanozip_compress b input out_size w)) output of
       (ret, out', tr) \<Rightarrow> ret = length input \<and> take (length input) out' = input)"
  using compress_nonzero [OF assms(2), of b w] roundtrip_core [OF assms(1,3,4)]
  by auto


theorem roundtrip_witness:
  "length ([0x61, 0x62, 0x63, 0x61, 0x62, 0x63, 0x61, 0x62, 0x63, 0x61, 0x62, 0x63] :: byte list) < 2 ^ 32 \<and> length ([0x61, 0x62, 0x63, 0x61, 0x62, 0x63, 0x61, 0x62, 0x63, 0x61, 0x62, 0x63] :: byte list) + 14 \<le> 100 \<and>
   cpos (compress_final PORTABLE [0x61, 0x62, 0x63, 0x61, 0x62, 0x63, 0x61, 0x62, 0x63, 0x61, 0x62, 0x63] 100 0) = length ([0x61, 0x62, 0x63, 0x61, 0x62, 0x63, 0x61, 0x62, 0x63, 0x61, 0x62, 0x63] :: byte list) \<and>
   length ([0x61, 0x62, 0x63, 0x61, 0x62, 0x63, 0x61, 0x62, 0x63, 0x61, 0x62, 0x63] :: byte list) \<le> length ([0, 0, 0, 0, 0, 0, 0, 0, 0, 0, 0, 0] :: byte list) \<and>
   nanozip_compress PORTABLE [0x61, 0x62, 0x63, 0x61, 0x62, 0x63, 0x61, 0x62, 0x63, 0x61, 0x62, 0x63] 100 0 = (22, [80, 90, 78, 90, 12, 0, 0, 0, 52, 42, 110, 90, 255, 255, 97, 98, 99, 97, 192, 3, 0, 5]) \<and>
   fst (nanozip_decompress [80, 90, 78, 90, 12, 0, 0, 0, 52, 42, 110, 90, 255, 255, 97, 98, 99, 97, 192, 3, 0, 5] [0, 0, 0, 0, 0, 0, 0, 0, 0, 0, 0, 0]) = length ([0x61, 0x62, 0x63, 0x61, 0x62, 0x63, 0x61, 0x62, 0x63, 0x61, 0x62, 0x63] :: byte list) \<and>
   take (length ([0x61, 0x62, 0x63, 0x61, 0x62, 0x63, 0x61, 0x62, 0x63, 0x61, 0x62, 0x63] :: byte list)) (fst (snd (nanozip_decompress [80, 90, 78, 90, 12, 0, 0, 0, 52, 42, 110, 90, 255, 255, 97, 98, 99, 97, 192, 3, 0, 5] [0, 0, 0, 0, 0, 0, 0, 0, 0, 0, 0, 0]))) = [0x61, 0x62, 0x63, 0x61, 0x62, 0x63, 0x61, 0x62, 0x63, 0x61, 0x62, 0x63]"
proof -
  have e: "nanozip_compress PORTABLE [0x61, 0x62, 0x63, 0x61, 0x62, 0x63, 0x61, 0x62, 0x63, 0x61, 0x62, 0x63] 100 0 = (22, [80, 90, 78, 90, 12, 0, 0, 0, 52, 42, 110, 90, 255, 255, 97, 98, 99, 97, 192, 3, 0, 5])"
    by (simp add: comp_eval crc_eval del: walk.simps)
  have c: "cpos (compress_final PORTABLE [0x61, 0x62, 0x63, 0x61, 0x62, 0x63, 0x61, 0x62, 0x63, 0x61, 0x62, 0x63] 100 0) = length ([0x61, 0x62, 0x63, 0x61, 0x62, 0x63, 0x61, 0x62, 0x63, 0x61, 0x62, 0x63] :: byte list)"
    by (rule compress_complete) simp
  have "fst (nanozip_compress PORTABLE [0x61, 0x62, 0x63, 0x61, 0x62, 0x63, 0x61, 0x62, 0x63, 0x61, 0x62, 0x63] 100 0) \<noteq> 0 \<and>
    (case nanozip_decompress (snd (nanozip_compress PORTABLE [0x61, 0x62, 0x63, 0x61, 0x62, 0x63, 0x61, 0x62, 0x63, 0x61, 0x62, 0x63] 100 0)) [0, 0, 0, 0, 0, 0, 0, 0, 0, 0, 0, 0] of
       (ret, out', tr) \<Rightarrow> ret = length ([0x61, 0x62, 0x63, 0x61, 0x62, 0x63, 0x61, 0x62, 0x63, 0x61, 0x62, 0x63] :: byte list) \<and> take (length ([0x61, 0x62, 0x63, 0x61, 0x62, 0x63, 0x61, 0x62, 0x63, 0x61, 0x62, 0x63] :: byte list)) out' = [0x61, 0x62, 0x63, 0x61, 0x62, 0x63, 0x61, 0x62, 0x63, 0x61, 0x62, 0x63])"
    by (rule roundtrip) (use c in simp_all)
  then show ?thesis using c unfolding e by (simp add: split_beta)
qed

text \<open>
  The claim as stated covers every input.  An input of \<open>2 ^ 32\<close> bytes is compressed without
  truncation into a buffer of \<open>2 * 2 ^ 32 + 15\<close> bytes, the size field of the header holds the
  length modulo \<open>2 ^ 32\<close>, which is 0, and the decoder returns 0.
\<close>

theorem roundtrip_counterexample:
  "cpos (compress_final PORTABLE (replicate 4294967296 0) 8589934607 0)
     = length (replicate 4294967296 (0 :: byte)) \<and>
   fst (nanozip_compress PORTABLE (replicate 4294967296 0) 8589934607 0) \<noteq> 0 \<and>
   fst (nanozip_decompress (snd (nanozip_compress PORTABLE (replicate 4294967296 0) 8589934607 0))
          (replicate 4294967296 0)) \<noteq> 4294967296"
proof -
  let ?i = "replicate 4294967296 (0 :: byte)"
  have c: "cpos (compress_final PORTABLE ?i 8589934607 0) = length ?i"
    by (rule compress_complete) simp
  have n: "nanozip_compress PORTABLE ?i 8589934607 0
     = (length (cout (compress_final PORTABLE ?i 8589934607 0)), cout (compress_final PORTABLE ?i 8589934607 0)) \<and>
   14 \<le> length (cout (compress_final PORTABLE ?i 8589934607 0))"
    by (rule compress_nonzero) simp
  obtain r where r: "cout (compress_final PORTABLE ?i 8589934607 0) = header ?i (nz_init (size_t_of_int 0)) @ r"
    using compress_stream by blast
  have "hdr_size (cout (compress_final PORTABLE ?i 8589934607 0)) = 0"
    unfolding r hdr_fields by simp
  then have "fst (nanozip_decompress (cout (compress_final PORTABLE ?i 8589934607 0)) ?i) = 0"
    using decompress_zero_or_size [of "cout (compress_final PORTABLE ?i 8589934607 0)" ?i] by auto
  then show ?thesis using c n by auto
qed

text \<open>
  C5 (as amended).  For every input shorter than \<open>2 ^ 32\<close> bytes that passes the capacity
  test, the bytes written after the 14-byte header are the concatenation of a list of
  tokens that describes the input from position 0 up to the position reached: a direct
  literal is one byte, the input byte itself, of value at most \<open>0xBE\<close>; an escaped literal
  is \<open>0xBF\<close> followed by the input byte, of value \<open>0xBF\<close> or more; a match is \<open>0xC0\<close>, the low
  and the high byte of the distance and the length minus 3, with distance in \<open>[1, 65535]\<close> and
  length in \<open>[3, 258]\<close>, and repeats the input \<open>distance\<close> positions back.  Reading the stream
  token by token gives back this very list, so a byte \<open>0xBF\<close> or \<open>0xC0\<close> at the start of a
  token is always a marker.  When all input positions have been consumed, decompression
  into any buffer at least as long as the input returns the input length and reproduces the
  input.
\<close>

theorem escape_tokens:
  assumes "length input < 2 ^ 32" and "length input + 14 \<le> out_size"
  shows "\<exists>ts. snd (nanozip_compress b input out_size w)
                = header input (nz_init (size_t_of_int w)) @ concat (map token_bytes ts) \<and>
              list_all token_ok ts \<and>
              covers input 0 ts = Some (cpos (compress_final b input out_size w)) \<and>
              parse_tokens (drop 14 (snd (nanozip_compress b input out_size w))) = Some ts \<and>
              (cpos (compress_final b input out_size w) = length input \<longrightarrow>
                 (\<forall>output. length input \<le> length output \<longrightarrow>
                    (case nanozip_decompress (snd (nanozip_compress b input out_size w)) output of
                       (ret, out', tr) \<Rightarrow> ret = length input \<and> take (length input) out' = input)))"
proof -
  obtain ts where ts: "cout (compress_final b input out_size w)
               = header input (nz_init (size_t_of_int w)) @ concat (map token_bytes ts)"
      "list_all token_ok ts" "covers input 0 ts = Some (cpos (compress_final b input out_size w))"
    using compress_tokens [OF assms(1)] by blast
  have e: "snd (nanozip_compress b input out_size w) = cout (compress_final b input out_size w)"
    using compress_nonzero [OF assms(2), of b w] by simp
  have p: "parse_tokens (drop 14 (snd (nanozip_compress b input out_size w))) = Some ts"
    unfolding e ts(1) using parse_tokens_bytes [OF ts(2)] by simp
  have r: "case nanozip_decompress (snd (nanozip_compress b input out_size w)) output of
        (ret, out', tr) \<Rightarrow> ret = length input \<and> take (length input) out' = input"
    if "cpos (compress_final b input out_size w) = length input" "length input \<le> length output"
    for "output"
    unfolding e using roundtrip_core [OF assms(1) that] by auto
  show ?thesis
    using ts p r unfolding e by (intro exI [of _ ts]) simp
qed

theorem escape_tokens_witness:
  "length ([0xBF, 0xC0, 0xFF, 0x00] :: byte list) < 2 ^ 32 \<and> length ([0xBF, 0xC0, 0xFF, 0x00] :: byte list) + 14 \<le> 100 \<and>
   nanozip_compress PORTABLE [0xBF, 0xC0, 0xFF, 0x00] 100 (- 5) = (21, [80, 90, 78, 90, 4, 0, 0, 0, 226, 234, 222, 102, 255, 255, 191, 191, 191, 192, 191, 255, 0]) \<and>
   parse_tokens (drop 14 [80, 90, 78, 90, 4, 0, 0, 0, 226, 234, 222, 102, 255, 255, 191, 191, 191, 192, 191, 255, 0]) = Some [Escaped 0xBF, Escaped 0xC0, Escaped 0xFF, Literal 0] \<and>
   list_all token_ok [Escaped 0xBF, Escaped 0xC0, Escaped 0xFF, Literal 0] \<and>
   cpos (compress_final PORTABLE [0xBF, 0xC0, 0xFF, 0x00] 100 (- 5)) = length ([0xBF, 0xC0, 0xFF, 0x00] :: byte list) \<and>
   fst (nanozip_decompress [80, 90, 78, 90, 4, 0, 0, 0, 226, 234, 222, 102, 255, 255, 191, 191, 191, 192, 191, 255, 0] [7, 7, 7, 7, 7]) = length ([0xBF, 0xC0, 0xFF, 0x00] :: byte list) \<and>
   take (length ([0xBF, 0xC0, 0xFF, 0x00] :: byte list)) (fst (snd (nanozip_decompress [80, 90, 78, 90, 4, 0, 0, 0, 226, 234, 222, 102, 255, 255, 191, 191, 191, 192, 191, 255, 0] [7, 7, 7, 7, 7]))) = [0xBF, 0xC0, 0xFF, 0x00]"
proof -
  have e: "nanozip_compress PORTABLE [0xBF, 0xC0, 0xFF, 0x00] 100 (- 5) = (21, [80, 90, 78, 90, 4, 0, 0, 0, 226, 234, 222, 102, 255, 255, 191, 191, 191, 192, 191, 255, 0])"
    by (simp add: comp_eval crc_eval del: walk.simps)
  have c: "cpos (compress_final PORTABLE [0xBF, 0xC0, 0xFF, 0x00] 100 (- 5)) = length ([0xBF, 0xC0, 0xFF, 0x00] :: byte list)"
    by (rule compress_complete) simp
  have p: "parse_tokens (drop 14 [80, 90, 78, 90, 4, 0, 0, 0, 226, 234, 222, 102, 255, 255, 191, 191, 191, 192, 191, 255, 0]) = Some [Escaped 0xBF, Escaped 0xC0, Escaped 0xFF, Literal 0]"
    by simp
  obtain ts where ts: "list_all token_ok ts"
      "parse_tokens (drop 14 (snd (nanozip_compress PORTABLE [0xBF, 0xC0, 0xFF, 0x00] 100 (- 5)))) = Some ts"
      "cpos (compress_final PORTABLE [0xBF, 0xC0, 0xFF, 0x00] 100 (- 5)) = length ([0xBF, 0xC0, 0xFF, 0x00] :: byte list) \<longrightarrow>
                 (\<forall>output. length ([0xBF, 0xC0, 0xFF, 0x00] :: byte list) \<le> length output \<longrightarrow>
                    (case nanozip_decompress (snd (nanozip_compress PORTABLE [0xBF, 0xC0, 0xFF, 0x00] 100 (- 5))) output of
                       (ret, out', tr) \<Rightarrow> ret = length ([0xBF, 0xC0, 0xFF, 0x00] :: byte list) \<and> take (length ([0xBF, 0xC0, 0xFF, 0x00] :: byte list)) out' = [0xBF, 0xC0, 0xFF, 0x00]))"
    using escape_tokens [of "[0xBF, 0xC0, 0xFF, 0x00]" 100 PORTABLE "- 5"] by auto
  have t: "ts = [Escaped 0xBF, Escaped 0xC0, Escaped 0xFF, Literal 0]"
    using ts(2) p unfolding e by simp
  have "case nanozip_decompress [80, 90, 78, 90, 4, 0, 0, 0, 226, 234, 222, 102, 255, 255, 191, 191, 191, 192, 191, 255, 0] [7, 7, 7, 7, 7] of
      (ret, out', tr) \<Rightarrow> ret = length ([0xBF, 0xC0, 0xFF, 0x00] :: byte list) \<and> take (length ([0xBF, 0xC0, 0xFF, 0x00] :: byte list)) out' = [0xBF, 0xC0, 0xFF, 0x00]"
    using ts(3) c unfolding e by simp
  then show ?thesis using e c p ts(1) unfolding t by (simp add: split_beta)
qed

text \<open>
  The round trip of the claim as stated fails on \<open>2 ^ 32\<close> bytes of \<open>0xBF\<close>, compressed
  without truncation: the decoder returns 0.
\<close>

theorem escape_tokens_counterexample:
  "cpos (compress_final PORTABLE (replicate 4294967296 0xBF) 8589934607 0)
     = length (replicate 4294967296 (0xBF :: byte)) \<and>
   fst (nanozip_compress PORTABLE (replicate 4294967296 0xBF) 8589934607 0) \<noteq> 0 \<and>
   fst (nanozip_decompress (snd (nanozip_compress PORTABLE (replicate 4294967296 0xBF) 8589934607 0))
          (replicate 4294967296 0)) \<noteq> 4294967296"
proof -
  let ?i = "replicate 4294967296 (0xBF :: byte)"
  have c: "cpos (compress_final PORTABLE ?i 8589934607 0) = length ?i"
    by (rule compress_complete) simp
  have n: "nanozip_compress PORTABLE ?i 8589934607 0
     = (length (cout (compress_final PORTABLE ?i 8589934607 0)), cout (compress_final PORTABLE ?i 8589934607 0)) \<and>
   14 \<le> length (cout (compress_final PORTABLE ?i 8589934607 0))"
    by (rule compress_nonzero) simp
  obtain r where r: "cout (compress_final PORTABLE ?i 8589934607 0) = header ?i (nz_init (size_t_of_int 0)) @ r"
    using compress_stream by blast
  have "hdr_size (cout (compress_final PORTABLE ?i 8589934607 0)) = 0"
    unfolding r hdr_fields by simp
  then have "fst (nanozip_decompress (cout (compress_final PORTABLE ?i 8589934607 0)) (replicate 4294967296 0)) = 0"
    using decompress_zero_or_size [of "cout (compress_final PORTABLE ?i 8589934607 0)" "replicate 4294967296 0"] by auto
  then show ?thesis using c n by auto
qed

lemma parse_tokens_append:
  "parse_tokens xs = Some ts \<Longrightarrow>
   parse_tokens (xs @ ys) = map_option ((@) ts) (parse_tokens ys)"
proof (induction xs arbitrary: ts rule: parse_tokens.induct)
  case 1
  then show ?case by (simp add: option.map_ident)
next
  case (2 x xs)
  show ?case
  proof (cases "x = 0xBF")
    case True
    then obtain v r where xs: "xs = v # r" using 2(4) by (cases xs) auto
    obtain t where t: "parse_tokens r = Some t" "ts = Escaped v # t"
      using 2(4) True xs by auto
    have "parse_tokens (r @ ys) = map_option ((@) t) (parse_tokens ys)"
      using 2(1) [OF True xs t(1)] .
    then show ?thesis using True xs t by (simp add: option.map_comp comp_def)
  next
    case nb: False
    show ?thesis
    proof (cases "x = 0xC0")
      case True
      then obtain lo hi l r where xs: "xs = lo # hi # l # r"
        using 2(4) nb by (auto split: list.splits)
      obtain t where t: "parse_tokens r = Some t"
          "ts = Match (unat lo + 256 * unat hi) (unat l + 3) # t"
        using 2(4) True xs by auto
      have "parse_tokens (r @ ys) = map_option ((@) t) (parse_tokens ys)"
        using 2(2) [OF nb True xs refl refl t(1)] .
      then show ?thesis using True xs t by (simp add: option.map_comp comp_def)
    next
      case False
      obtain t where t: "parse_tokens xs = Some t" "ts = Literal x # t"
        using 2(4) nb False by auto
      have "parse_tokens (xs @ ys) = map_option ((@) t) (parse_tokens ys)"
        using 2(3) [OF nb False t(1)] .
      then show ?thesis using nb False t by (simp add: option.map_comp comp_def)
    qed
  qed
qed

lemma comp_body_parse:
  "comp_body b input out_size s = (c, s') \<Longrightarrow>
   \<exists>bs ts. cout s' = cout s @ bs \<and> parse_tokens bs = Some ts"
  by (auto simp: comp_body_def Let_def split: prod.splits if_splits)

lemma comp_loop_parse:
  "\<exists>bs ts. cout (comp_loop b input out_size s) = cout s @ bs \<and> parse_tokens bs = Some ts"
proof (induction b input out_size s rule: comp_loop.induct)
  case (1 b input out_size s)
  show ?case
  proof (cases "cpos s < length input")
    case False
    then have "comp_loop b input out_size s = s" by (subst comp_loop.simps) simp
    then show ?thesis by simp
  next
    case True
    obtain c s' where e: "comp_body b input out_size s = (c, s')"
      by (cases "comp_body b input out_size s")
    obtain bs ts where b: "cout s' = cout s @ bs" "parse_tokens bs = Some ts"
      using comp_body_parse [OF e] by blast
    show ?thesis
    proof (cases c)
      case False
      then have "comp_loop b input out_size s = s'"
        using e True by (subst comp_loop.simps) simp
      then show ?thesis using b by simp
    next
      case cont: True
      have l: "comp_loop b input out_size s = comp_loop b input out_size s'"
        using e True cont by (subst comp_loop.simps) simp
      obtain bs' ts' where b': "cout (comp_loop b input out_size s') = cout s' @ bs'"
          "parse_tokens bs' = Some ts'"
        using 1 [OF True e [symmetric]] cont by blast
      have "parse_tokens (bs @ bs') = Some (ts @ ts')"
        using parse_tokens_append [OF b(2), of bs'] b'(2) by simp
      then show ?thesis unfolding l using b(1) b'(1) by simp
    qed
  qed
qed

lemma compress_parse:
  "\<exists>ts. parse_tokens (drop 14 (cout (compress_final b input out_size w))) = Some ts"
  unfolding compress_final_def Let_def
  using comp_loop_parse [of b input out_size "\<lparr>cpos = 0,
     cout = header input (nz_init (size_t_of_int w)), cst = nz_init (size_t_of_int w)\<rparr>"]
  by auto

text \<open>
  C8 (as amended).  For every input, every window parameter and every capacity that passes
  the capacity test, the first 14 bytes written are, in little-endian order, the magic
  \<open>0x5A4E5A50\<close> (offset 0), the input size modulo \<open>2 ^ 32\<close> (offset 4), which is the input
  size itself for every input shorter than \<open>2 ^ 32\<close> bytes, the checksum \<^verbatim>\<open>nz_crc32\<close> of the
  whole input (offset 8; polynomial \<open>0xEDB88320\<close>, initial value all ones, final complement,
  with the standard check value \<open>0xCBF43926\<close> on the digits 1 to 9) and the window size in
  16 bits (offset 12): the parameter itself when it lies in \<open>[1024, 65535]\<close>, and 65535 for
  every other value, negative ones included.  Reading the four fields back gives these
  values.  The token stream begins at offset 14: the result is the number of bytes written,
  at least 14, and the bytes from offset 14 to the end read, token by token, as a list of
  complete tokens; for an input shorter than \<open>2 ^ 32\<close> bytes these are well-formed tokens
  that describe the input from position 0 up to the position reached.
\<close>

theorem header_layout:
  assumes "length input + 14 \<le> out_size"
  shows "take 14 (snd (nanozip_compress b input out_size w))
           = le32 0x5A4E5A50 @ le32 (word_of_nat (length input))
               @ le32 (nz_crc32 input (length input))
               @ le16 (word_of_nat (if 1024 \<le> sint w \<and> sint w \<le> 65535 then nat (sint w) else 65535)) \<and>
         hdr_magic (snd (nanozip_compress b input out_size w)) = 0x5A4E5A50 \<and>
         hdr_size (snd (nanozip_compress b input out_size w)) = length input mod 2 ^ 32 \<and>
         (length input < 2 ^ 32 \<longrightarrow>
            hdr_size (snd (nanozip_compress b input out_size w)) = length input) \<and>
         hdr_crc (snd (nanozip_compress b input out_size w)) = nz_crc32 input (length input) \<and>
         hdr_window (snd (nanozip_compress b input out_size w))
           = (if 1024 \<le> sint w \<and> sint w \<le> 65535 then nat (sint w) else 65535) \<and>
         14 \<le> fst (nanozip_compress b input out_size w) \<and>
         length (snd (nanozip_compress b input out_size w)) = fst (nanozip_compress b input out_size w) \<and>
         (\<exists>ts. parse_tokens (drop 14 (snd (nanozip_compress b input out_size w))) = Some ts \<and>
               (length input < 2 ^ 32 \<longrightarrow>
                  list_all token_ok ts \<and>
                  covers input 0 ts = Some (cpos (compress_final b input out_size w)))) \<and>
         nz_crc32 [0x31, 0x32, 0x33, 0x34, 0x35, 0x36, 0x37, 0x38, 0x39] 9 = 0xCBF43926"
proof -
  define st where "st = nz_init (size_t_of_int w)"
  obtain r where r: "cout (compress_final b input out_size w) = header input st @ r"
    using compress_stream unfolding st_def by blast
  have o: "snd (nanozip_compress b input out_size w) = cout (compress_final b input out_size w)"
      and f: "14 \<le> fst (nanozip_compress b input out_size w)"
      and fl: "length (snd (nanozip_compress b input out_size w)) = fst (nanozip_compress b input out_size w)"
    using compress_nonzero [OF assms(1), of b w] by simp_all
  have e: "snd (nanozip_compress b input out_size w) = header input st @ r"
    using o r by simp
  have w: "window_size st = (if 1024 \<le> sint w \<and> sint w \<le> 65535 then nat (sint w) else 65535)"
    unfolding st_def by (rule window_clamp)
  have wr: "window_size st < 2 ^ 16" using window_range [of w] by (simp add: st_def)
  have t: "take 14 (header input st @ r) = header input st" by simp
  have h: "header input st = le32 0x5A4E5A50 @ le32 (word_of_nat (length input))
               @ le32 (nz_crc32 input (length input))
               @ le16 (word_of_nat (if 1024 \<le> sint w \<and> sint w \<le> 65535 then nat (sint w) else 65535))"
    unfolding header_def w NZ_MAGIC_def ..
  have chk: "nz_crc32 [0x31, 0x32, 0x33, 0x34, 0x35, 0x36, 0x37, 0x38, 0x39] 9 = 0xCBF43926"
    by (simp add: crc_eval)
  have sz: "hdr_size (header input st @ r) = length input mod 2 ^ 32"
    unfolding hdr_fields by (simp add: unat_of_nat take_bit_eq_mod)
  have sz': "hdr_size (header input st @ r) = length input" if "length input < 2 ^ 32"
    unfolding sz using that by simp
  have wn: "hdr_window (header input st @ r) = window_size st"
    unfolding hdr_fields using wr by (simp add: unat_of_nat)
  have p: "\<exists>ts. parse_tokens (drop 14 (snd (nanozip_compress b input out_size w))) = Some ts \<and>
               (length input < 2 ^ 32 \<longrightarrow>
                  list_all token_ok ts \<and>
                  covers input 0 ts = Some (cpos (compress_final b input out_size w)))"
  proof (cases "length input < 2 ^ 32")
    case True
    obtain ts where ts: "cout (compress_final b input out_size w)
               = header input (nz_init (size_t_of_int w)) @ concat (map token_bytes ts)"
      "list_all token_ok ts" "covers input 0 ts = Some (cpos (compress_final b input out_size w))"
      using compress_tokens [OF True] by blast
    have "parse_tokens (drop 14 (snd (nanozip_compress b input out_size w))) = Some ts"
      unfolding o ts(1) using parse_tokens_bytes [OF ts(2)] by simp
    then show ?thesis using ts(2,3) by blast
  next
    case False
    then show ?thesis unfolding o using compress_parse [of b input out_size w] by simp
  qed
  have m: "hdr_magic (header input st @ r) = 0x5A4E5A50"
    using hdr_fields(1) [of input st r] by (simp add: NZ_MAGIC_def)
  have c: "hdr_crc (header input st @ r) = nz_crc32 input (length input)"
    by (rule hdr_fields)
  have a: "take 14 (snd (nanozip_compress b input out_size w))
           = le32 0x5A4E5A50 @ le32 (word_of_nat (length input))
               @ le32 (nz_crc32 input (length input))
               @ le16 (word_of_nat (if 1024 \<le> sint w \<and> sint w \<le> 65535 then nat (sint w) else 65535))"
    unfolding e using t unfolding h .
  have wn': "hdr_window (snd (nanozip_compress b input out_size w))
           = (if 1024 \<le> sint w \<and> sint w \<le> 65535 then nat (sint w) else 65535)"
    unfolding e wn w ..
  show ?thesis
    using a m [folded e] sz [folded e] sz' [folded e] c [folded e] wn' f fl p chk
    by blast
qed

theorem header_layout_witness:
  "length ([0x61, 0x62, 0x63, 0x61, 0x62, 0x63, 0x61, 0x62, 0x63, 0x61, 0x62, 0x63] :: byte list) + 14 \<le> 100 \<and>
   length ([0x61, 0x62, 0x63, 0x61, 0x62, 0x63, 0x61, 0x62, 0x63, 0x61, 0x62, 0x63] :: byte list) < 2 ^ 32 \<and>
   nanozip_compress PORTABLE [0x61, 0x62, 0x63, 0x61, 0x62, 0x63, 0x61, 0x62, 0x63, 0x61, 0x62, 0x63] 100 2000
     = (22, [80, 90, 78, 90, 12, 0, 0, 0, 52, 42, 110, 90, 208, 7, 97, 98, 99, 97, 192, 3, 0, 5]) \<and>
   hdr_magic [80, 90, 78, 90, 12, 0, 0, 0, 52, 42, 110, 90, 208, 7, 97, 98, 99, 97, 192, 3, 0, 5] = 0x5A4E5A50 \<and>
   hdr_size [80, 90, 78, 90, 12, 0, 0, 0, 52, 42, 110, 90, 208, 7, 97, 98, 99, 97, 192, 3, 0, 5] = 12 \<and>
   hdr_crc [80, 90, 78, 90, 12, 0, 0, 0, 52, 42, 110, 90, 208, 7, 97, 98, 99, 97, 192, 3, 0, 5] = 0x5A6E2A34 \<and>
   nz_crc32 [0x61, 0x62, 0x63, 0x61, 0x62, 0x63, 0x61, 0x62, 0x63, 0x61, 0x62, 0x63] 12 = 0x5A6E2A34 \<and>
   hdr_window [80, 90, 78, 90, 12, 0, 0, 0, 52, 42, 110, 90, 208, 7, 97, 98, 99, 97, 192, 3, 0, 5] = 2000 \<and>
   parse_tokens (drop 14 [80, 90, 78, 90, 12, 0, 0, 0, 52, 42, 110, 90, 208, 7, 97, 98, 99, 97, 192, 3, 0, 5])
     = Some [Literal 97, Literal 98, Literal 99, Literal 97, Match 3 8] \<and>
   list_all token_ok [Literal 97, Literal 98, Literal 99, Literal 97, Match 3 8] \<and>
   covers [0x61, 0x62, 0x63, 0x61, 0x62, 0x63, 0x61, 0x62, 0x63, 0x61, 0x62, 0x63] 0
       [Literal 97, Literal 98, Literal 99, Literal 97, Match 3 8]
     = Some (cpos (compress_final PORTABLE [0x61, 0x62, 0x63, 0x61, 0x62, 0x63, 0x61, 0x62, 0x63, 0x61, 0x62, 0x63] 100 2000))"
proof -
  let ?I = "[0x61, 0x62, 0x63, 0x61, 0x62, 0x63, 0x61, 0x62, 0x63, 0x61, 0x62, 0x63] :: byte list"
  let ?O = "[80, 90, 78, 90, 12, 0, 0, 0, 52, 42, 110, 90, 208, 7, 97, 98, 99, 97, 192, 3, 0, 5] :: byte list"
  have e: "nanozip_compress PORTABLE ?I 100 2000 = (22, ?O)"
    by (simp add: comp_eval crc_eval del: walk.simps)
  have p: "parse_tokens (drop 14 ?O) = Some [Literal 97, Literal 98, Literal 99, Literal 97, Match 3 8]"
    by simp
  have s: "sint (2000 :: u32) = 2000" by simp
  note h = header_layout [of ?I 100 PORTABLE 2000, unfolded e fst_conv snd_conv s]
  obtain ts where ts: "parse_tokens (drop 14 ?O) = Some ts"
      "list_all token_ok ts" "covers ?I 0 ts = Some (cpos (compress_final PORTABLE ?I 100 2000))"
    using h by auto
  have t: "ts = [Literal 97, Literal 98, Literal 99, Literal 97, Match 3 8]"
    using ts(1) p by simp
  have k: "nz_crc32 ?I 12 = 0x5A6E2A34" "nz_crc32 ?I (length ?I) = 0x5A6E2A34"
    by (simp_all add: crc_eval)
  have f: "hdr_magic ?O = 0x5A4E5A50" "hdr_size ?O = 12" "hdr_crc ?O = 0x5A6E2A34" "hdr_window ?O = 2000"
    using h unfolding k by simp_all
  show ?thesis
    using e p f k(1) ts(2,3) unfolding t by simp
qed

text \<open>
  For an input of \<open>2 ^ 32 + 1\<close> bytes the size field of the header holds 1.
\<close>

theorem header_layout_counterexample:
  "fst (nanozip_compress PORTABLE (replicate 4294967297 0x41) 4294967311 0) \<noteq> 0 \<and>
   hdr_size (snd (nanozip_compress PORTABLE (replicate 4294967297 0x41) 4294967311 0)) = 1 \<and>
   length (replicate 4294967297 (0x41 :: byte)) = 4294967297"
proof -
  let ?i = "replicate 4294967297 (0x41 :: byte)"
  have n: "nanozip_compress PORTABLE ?i 4294967311 0
     = (length (cout (compress_final PORTABLE ?i 4294967311 0)), cout (compress_final PORTABLE ?i 4294967311 0)) \<and>
   14 \<le> length (cout (compress_final PORTABLE ?i 4294967311 0))"
    by (rule compress_nonzero) simp
  obtain r where r: "cout (compress_final PORTABLE ?i 4294967311 0) = header ?i (nz_init (size_t_of_int 0)) @ r"
    using compress_stream by blast
  have "hdr_size (cout (compress_final PORTABLE ?i 4294967311 0)) = 1"
    unfolding r hdr_fields by (simp add: unat_of_nat)
  then show ?thesis using n by auto
qed

end
